theory Spec2Isabelle
  imports Main
begin

section \<open>Text, characters and Python's built-ins\<close>

text \<open>
  The program works on Python 3 \<open>str\<close> values. A character of the model is a code point
  of the decoded text below 256, and a string is the list of its code points. The
  classes below are the ones Python's \<open>re\<close> module and \<open>str\<close> methods use on that
  range.
\<close>

definition newline :: char where
  "newline = CHR 0x0A"

definition code :: "char \<Rightarrow> nat" where
  "code c = of_char c"

definition is_space :: "char \<Rightarrow> bool" where
  \<comment> \<open>\<open>\s\<close> of a \<open>str\<close> pattern, and \<open>str.isspace\<close>.\<close>
  "is_space c \<longleftrightarrow>
     (9 \<le> code c \<and> code c \<le> 13) \<or> (28 \<le> code c \<and> code c \<le> 32) \<or>
     code c = 133 \<or> code c = 160"

definition is_digit :: "char \<Rightarrow> bool" where
  \<comment> \<open>\<open>\d\<close> of a \<open>str\<close> pattern: the decimal digits.\<close>
  "is_digit c \<longleftrightarrow> 48 \<le> code c \<and> code c \<le> 57"

definition digit_val :: "char \<Rightarrow> int" where
  "digit_val c = int (code c) - 48"

definition lower_char :: "char \<Rightarrow> char" where
  "lower_char c =
     (if (65 \<le> code c \<and> code c \<le> 90) \<or> (192 \<le> code c \<and> code c \<le> 222 \<and> code c \<noteq> 215)
      then char_of (code c + 32) else c)"

definition lower :: "string \<Rightarrow> string" where
  \<comment> \<open>\<open>str.lower()\<close>\<close>
  "lower s = map lower_char s"

definition startswith :: "string \<Rightarrow> string \<Rightarrow> bool" where
  \<comment> \<open>\<open>s.startswith(p)\<close>\<close>
  "startswith s p \<longleftrightarrow> take (length p) s = p"

datatype error =
    AttributeError
  | TypeError
  | ValueError
  | IndexError
  | NotImplementedError
  | PatternError

subsection \<open>\<open>int()\<close> on a string\<close>

text \<open>
  \<open>int(x)\<close> raises \<open>TypeError\<close> for \<open>None\<close>. For a string it skips surrounding
  white space, reads an optional sign and then decimal digits, where single underscores
  may stand between digits; anything else is a \<open>ValueError\<close>. The interpreter's
  optional limit on the number of digits is a setting of the interpreter and is not part
  of the model.
\<close>

definition is_int_space :: "char \<Rightarrow> bool" where
  "is_int_space c \<longleftrightarrow>
     (9 \<le> code c \<and> code c \<le> 13) \<or> code c = 32 \<or> code c = 133 \<or> code c = 160"

definition strip_int :: "string \<Rightarrow> string" where
  "strip_int s = rev (dropWhile is_int_space (rev (dropWhile is_int_space s)))"

fun digits_ok :: "string \<Rightarrow> bool" where
  \<comment> \<open>digits, each underscore between two digits\<close>
  "digits_ok [] = False"
| "digits_ok [c] = is_digit c"
| "digits_ok (c # d # cs) =
     (if is_digit c then
        (if d = CHR ''_'' then (case cs of [] \<Rightarrow> False | e # _ \<Rightarrow> is_digit e \<and> digits_ok cs)
         else digits_ok (d # cs))
      else False)"

definition digits_value :: "string \<Rightarrow> int" where
  "digits_value s = foldl (\<lambda>acc c. 10 * acc + digit_val c) 0 (filter is_digit s)"

definition int_of_str :: "string \<Rightarrow> error + int" where
  "int_of_str s =
     (case strip_int s of
        [] \<Rightarrow> Inl ValueError
      | c # cs \<Rightarrow>
          if c = CHR ''-'' then (if digits_ok cs then Inr (- digits_value cs) else Inl ValueError)
          else if c = CHR ''+'' then (if digits_ok cs then Inr (digits_value cs) else Inl ValueError)
          else if digits_ok (c # cs) then Inr (digits_value (c # cs))
          else Inl ValueError)"

definition py_int :: "string option \<Rightarrow> error + int" where
  "py_int x = (case x of None \<Rightarrow> Inl TypeError | Some s \<Rightarrow> int_of_str s)"

fun map_int :: "string list \<Rightarrow> error + int list" where
  \<comment> \<open>\<open>tuple(map(int, xs))\<close>: the first failing conversion raises\<close>
  "map_int [] = Inr []"
| "map_int (x # xs) =
     (case int_of_str x of
        Inl e \<Rightarrow> Inl e
      | Inr n \<Rightarrow> (case map_int xs of Inl e \<Rightarrow> Inl e | Inr ns \<Rightarrow> Inr (n # ns)))"

section \<open>Regular expressions\<close>

text \<open>
  The patterns of the program use character classes, literals, greedy repetition of a
  class, an optional group, named groups and the line anchor of \<open>re.MULTILINE\<close>. The
  matcher lists the ways a pattern can match at a position in the order in which
  Python's backtracking engine tries them: a greedy repetition tries the longest run
  first, an optional group is tried before it is skipped, and a sequence tries every way
  of its second part before it moves to the next way of its first part. The engine's
  result is the first entry of the list.

  A matching state is the flag "at the start of a line" (the position is 0 or follows a
  newline), the text not yet consumed, and the groups captured so far. \<open>consume n\<close>
  moves a state over \<open>n\<close> characters; the matcher calls it only with an \<open>n\<close> that
  the remaining text has.
\<close>

datatype cls =
    Range char char  \<comment> \<open>\<open>[a-b]\<close>\<close>
  | Ch char
  | Ws               \<comment> \<open>\<open>\s\<close>\<close>
  | Dg               \<comment> \<open>\<open>\d\<close>\<close>
  | Dot              \<comment> \<open>\<open>.\<close> without \<open>re.DOTALL\<close>\<close>
  | Neg cls          \<comment> \<open>\<open>[^...]\<close>\<close>

fun in_cls :: "cls \<Rightarrow> char \<Rightarrow> bool" where
  "in_cls (Range a b) c = (code a \<le> code c \<and> code c \<le> code b)"
| "in_cls (Ch a) c = (c = a)"
| "in_cls Ws c = is_space c"
| "in_cls Dg c = is_digit c"
| "in_cls Dot c = (c \<noteq> newline)"
| "in_cls (Neg k) c = (\<not> in_cls k c)"

datatype rx =
    Bol              \<comment> \<open>\<open>^\<close> with \<open>re.MULTILINE\<close>\<close>
  | Lit string
  | One cls
  | Plus cls         \<comment> \<open>greedy \<open>+\<close> on a class\<close>
  | Star cls         \<comment> \<open>greedy \<open>*\<close> on a class\<close>
  | Opt rx           \<comment> \<open>greedy \<open>(?:...)?\<close>\<close>
  | Grp string rx    \<comment> \<open>\<open>(?P<name>...)\<close>\<close>
  | Then rx rx

type_synonym groups = "(string \<times> string) list"
type_synonym mstate = "bool \<times> string \<times> groups"

fun consume :: "nat \<Rightarrow> mstate \<Rightarrow> mstate" where
  "consume 0 st = st"
| "consume (Suc k) (b, s, g) = (s ! k = newline, drop (Suc k) s, g)"

fun rx_match :: "rx \<Rightarrow> mstate \<Rightarrow> mstate list" where
  "rx_match Bol (b, s, g) = (if b then [(b, s, g)] else [])"
| "rx_match (Lit l) (b, s, g) =
     (if take (length l) s = l then [consume (length l) (b, s, g)] else [])"
| "rx_match (One k) (b, s, g) =
     (case s of [] \<Rightarrow> [] | c # cs \<Rightarrow> if in_cls k c then [(c = newline, cs, g)] else [])"
| "rx_match (Plus k) (b, s, g) =
     map (\<lambda>n. consume n (b, s, g)) (rev [1 ..< Suc (length (takeWhile (in_cls k) s))])"
| "rx_match (Star k) (b, s, g) =
     map (\<lambda>n. consume n (b, s, g)) (rev [0 ..< Suc (length (takeWhile (in_cls k) s))])"
| "rx_match (Opt r) st = rx_match r st @ [st]"
| "rx_match (Grp name r) (b, s, g) =
     map (\<lambda>(b', s', g'). (b', s', (name, take (length s - length s') s) # g'))
       (rx_match r (b, s, g))"
| "rx_match (Then r1 r2) st = concat (map (rx_match r2) (rx_match r1 st))"

definition seq :: "rx list \<Rightarrow> rx" where
  "seq rs = foldr Then rs (Lit [])"

definition group :: "groups \<Rightarrow> string \<Rightarrow> string option" where
  \<comment> \<open>\<open>m.group(name)\<close>: \<open>None\<close> for a group that took no part in the match\<close>
  "group g name = map_of g name"

definition re_match :: "rx \<Rightarrow> string \<Rightarrow> groups option" where
  \<comment> \<open>\<open>re.match\<close>: a match at position 0, or \<open>None\<close>\<close>
  "re_match r s = (case rx_match r (True, s, []) of [] \<Rightarrow> None | (_, _, g) # _ \<Rightarrow> Some g)"

text \<open>
  \<open>re.finditer\<close> tries the positions from left to right and resumes after the end of
  each match. The first argument counts the characters of the last match still to be
  passed, the second is the offset of the position. A match is its start offset, its end
  offset and its groups. Every pattern of the program consumes at least one character.
\<close>

fun finditer_from :: "rx \<Rightarrow> nat \<Rightarrow> nat \<Rightarrow> bool \<Rightarrow> string \<Rightarrow> (nat \<times> nat \<times> groups) list" where
  "finditer_from r (Suc k) off b (c # cs) = finditer_from r k (Suc off) (c = newline) cs"
| "finditer_from r 0 off b (c # cs) =
     (case rx_match r (b, c # cs, []) of
        [] \<Rightarrow> finditer_from r 0 (Suc off) (c = newline) cs
      | (_, s', g) # _ \<Rightarrow>
          (off, off + (Suc (length cs) - length s'), g)
            # finditer_from r (length cs - length s') (Suc off) (c = newline) cs)"
| "finditer_from r k off b [] =
     (if k = 0 then (case rx_match r (b, [], []) of [] \<Rightarrow> [] | (_, _, g) # _ \<Rightarrow> [(off, off, g)])
      else [])"

definition finditer :: "rx \<Rightarrow> string \<Rightarrow> (nat \<times> nat \<times> groups) list" where
  "finditer r s = finditer_from r 0 0 True s"

definition re_search :: "rx \<Rightarrow> string \<Rightarrow> (nat \<times> nat \<times> groups) option" where
  \<comment> \<open>\<open>re.search\<close>: the leftmost match\<close>
  "re_search r s = (case finditer r s of [] \<Rightarrow> None | m # _ \<Rightarrow> Some m)"

fun pieces :: "string \<Rightarrow> nat \<Rightarrow> (nat \<times> nat \<times> groups) list \<Rightarrow> string list" where
  "pieces s p [] = [drop p s]"
| "pieces s p ((a, e, _) # ms) = take (a - p) (drop p s) # pieces s e ms"

definition re_split :: "rx \<Rightarrow> string \<Rightarrow> string list" where
  \<comment> \<open>\<open>re.split\<close> for a pattern without groups\<close>
  "re_split r s = pieces s 0 (finditer r s)"

section \<open>The type mapper\<close>

datatype column_type =
    String_t int       \<comment> \<open>\<open>sqlalchemy.types.String(length)\<close>\<close>
  | Integer_t
  | BigInteger_t
  | Numeric_t int int  \<comment> \<open>\<open>sqlalchemy.types.Numeric(precision, scale)\<close>\<close>
  | Date_t

definition field_type_rx :: rx where
  \<comment> \<open>\<open>(?P<type>[^(]+)(?:\((?P<args>.+)\))?\<close>\<close>
  "field_type_rx =
     seq [Grp ''type'' (Plus (Neg (Ch (CHR ''('')))),
          Opt (seq [Lit ''('', Grp ''args'' (Plus Dot), Lit '')''])]"

definition args_sep_rx :: rx where
  \<comment> \<open>\<open>,\s*\<close>\<close>
  "args_sep_rx = seq [Lit '','', Star Ws]"

definition get_field_type :: "string \<Rightarrow> error + column_type" where
  "get_field_type field_type_text =
     (case re_match field_type_rx field_type_text of
        None \<Rightarrow> Inl AttributeError
      | Some field_components \<Rightarrow>
          let field_type_component = group field_components ''type'';
              args = group field_components ''args''
          in
          if field_type_component = Some ''VARCHAR'' \<or> field_type_component = Some ''VARCHAR2''
          then (case py_int args of Inl e \<Rightarrow> Inl e | Inr n \<Rightarrow> Inr (String_t n))
          else if field_type_component = Some ''NUMBER''
          then (case args of
                  None \<Rightarrow> Inr BigInteger_t
                | Some a \<Rightarrow>
                    (case map_int (re_split args_sep_rx a) of
                       Inl e \<Rightarrow> Inl e
                     | Inr number_args \<Rightarrow>
                         (case number_args of
                            [n] \<Rightarrow> if n < 10 then Inr Integer_t else Inr BigInteger_t
                          | [p, s] \<Rightarrow> Inr (Numeric_t p s)
                          | _ \<Rightarrow> Inl NotImplementedError)))
          else if field_type_component = Some ''DATE''
          then Inr Date_t
          else Inl NotImplementedError)"

section \<open>The layout parser\<close>

text \<open>
  A schema is written as CSV text with the header \<open>column,start,length,field_type\<close>
  and read back row by row. The model keeps the rows themselves; \<open>start\<close> and
  \<open>length\<close> are held as the integers whose decimal form the text carries.
\<close>

record schema_row =
  column :: string
  start :: int
  length_col :: int
  field_type :: string

definition upper_cls :: cls where
  \<comment> \<open>\<open>[A-Z]\<close>\<close>
  "upper_cls = Range (CHR ''A'') (CHR ''Z'')"

definition field_spec_rx :: rx where
  \<comment> \<open>\<open>^(?P<field_name>[A-Z][^\s]+)\s+(?:NOT NULL)?\s+(?P<field_type>[A-Z][^\s]+)\s+\<close>
      \<open>\((?P<start_column>\d+):(?P<end_column>\d+)\)\<close>\<close>
  "field_spec_rx =
     seq [Bol,
          Grp ''field_name'' (seq [One upper_cls, Plus (Neg Ws)]),
          Plus Ws,
          Opt (Lit ''NOT NULL''),
          Plus Ws,
          Grp ''field_type'' (seq [One upper_cls, Plus (Neg Ws)]),
          Plus Ws,
          Lit ''('',
          Grp ''start_column'' (Plus Dg),
          Lit '':'',
          Grp ''end_column'' (Plus Dg),
          Lit '')'']"

definition group_text :: "groups \<Rightarrow> string \<Rightarrow> string" where
  \<comment> \<open>a group as \<open>csv\<close> writes it and as \<open>re.findall\<close> returns it: the empty text
      for a group that took no part in the match\<close>
  "group_text g name = (case group g name of None \<Rightarrow> [] | Some v \<Rightarrow> v)"

definition make_row :: "groups \<Rightarrow> error + schema_row" where
  "make_row row =
     (case py_int (group row ''start_column'') of
        Inl e \<Rightarrow> Inl e
      | Inr start_column \<Rightarrow>
          (case py_int (group row ''end_column'') of
             Inl e \<Rightarrow> Inl e
           | Inr end_column \<Rightarrow>
               Inr \<lparr>column = group_text row ''field_name'',
                    start = start_column,
                    length_col = end_column - start_column + 1,
                    field_type = group_text row ''field_type''\<rparr>))"

fun make_schema_io :: "groups list \<Rightarrow> error + schema_row list" where
  "make_schema_io [] = Inr []"
| "make_schema_io (m # ms) =
     (case make_row m of
        Inl e \<Rightarrow> Inl e
      | Inr r \<Rightarrow> (case make_schema_io ms of Inl e \<Rightarrow> Inl e | Inr rs \<Rightarrow> Inr (r # rs)))"

definition extract_schema :: "string \<Rightarrow> error + schema_row list" where
  "extract_schema readme_fragment =
     make_schema_io (map (\<lambda>(a, e, g). g) (finditer field_spec_rx readme_fragment))"

definition table_header_rx :: rx where
  \<comment> \<open>\<open>^([A-Z][^ ]+) - \<close>; the group is group 1\<close>
  "table_header_rx =
     seq [Bol, Grp ''1'' (seq [One upper_cls, Plus (Neg (Ch (CHR '' '')))]), Lit '' - '']"

definition findall1 :: "rx \<Rightarrow> string \<Rightarrow> string list" where
  \<comment> \<open>\<open>re.findall\<close> for a pattern with one group: the text of the group, match by match\<close>
  "findall1 r s = map (\<lambda>(a, e, g). group_text g ''1'') (finditer r s)"

definition special_chars :: string where
  "special_chars = ''.^$*+?{}[]|()'' @ [CHR 0x5C]"

definition literal_pattern :: "string \<Rightarrow> bool" where
  \<comment> \<open>a text that, used as a pattern, matches itself and nothing else\<close>
  "literal_pattern s \<longleftrightarrow> (\<forall>c \<in> set s. c \<notin> set special_chars)"

text \<open>
  \<open>get_table_start\<close> uses the table name as a pattern: \<open>'^' + table_name + ' - '\<close>.
  For a literal name that is the anchor and two literals. For a name that holds a
  character special in patterns, what \<open>re.search(...).start()\<close> then gives (an offset or
  an error) is the parameter \<open>dyn\<close>.
\<close>

definition get_table_start ::
  "(string \<Rightarrow> string \<Rightarrow> error + nat) \<Rightarrow> string \<Rightarrow> string \<Rightarrow> error + (string \<times> nat)" where
  "get_table_start dyn readme table_name =
     (if literal_pattern table_name then
        (case re_search (seq [Bol, Lit table_name, Lit '' - '']) readme of
           None \<Rightarrow> Inl AttributeError
         | Some (a, _, _) \<Rightarrow> Inr (table_name, a))
      else (case dyn table_name readme of Inl e \<Rightarrow> Inl e | Inr a \<Rightarrow> Inr (table_name, a)))"

fun map_err :: "('a \<Rightarrow> error + 'b) \<Rightarrow> 'a list \<Rightarrow> error + 'b list" where
  "map_err f [] = Inr []"
| "map_err f (x # xs) =
     (case f x of
        Inl e \<Rightarrow> Inl e
      | Inr y \<Rightarrow> (case map_err f xs of Inl e \<Rightarrow> Inl e | Inr ys \<Rightarrow> Inr (y # ys)))"

definition get_table_end ::
  "(string \<times> nat) list \<Rightarrow> string \<Rightarrow> nat \<times> (string \<times> nat) \<Rightarrow> error + (string \<times> nat \<times> nat option)" where
  "get_table_end table_starts last_table_name it =
     (case it of (i, (table_name, table_start)) \<Rightarrow>
        if table_name = last_table_name then Inr (table_name, table_start, None)
        else if i + 1 < length table_starts
        then Inr (table_name, table_start, Some (snd (table_starts ! (i + 1))))
        else Inl IndexError)"

definition slice :: "string \<Rightarrow> nat \<Rightarrow> nat option \<Rightarrow> string" where
  \<comment> \<open>\<open>s[a:e]\<close> for offsets from the front; \<open>None\<close> is the end of the text\<close>
  "slice s a e = (case e of None \<Rightarrow> drop a s | Some b \<Rightarrow> take (b - a) (drop a s))"

fun store_schemas ::
  "string \<Rightarrow> (string \<times> nat \<times> nat option) list \<Rightarrow> (string \<rightharpoonup> schema_row list)
     \<Rightarrow> error + (string \<rightharpoonup> schema_row list)" where
  "store_schemas readme [] schemas = Inr schemas"
| "store_schemas readme ((table_name, table_start, table_end) # rest) schemas =
     (case extract_schema (slice readme table_start table_end) of
        Inl e \<Rightarrow> Inl e
      | Inr schema \<Rightarrow> store_schemas readme rest (schemas(table_name \<mapsto> schema)))"

definition extract_table_schemas ::
  "(string \<Rightarrow> string \<Rightarrow> error + nat) \<Rightarrow> string \<Rightarrow> error + (string \<rightharpoonup> schema_row list)" where
  "extract_table_schemas dyn readme =
     (let table_names = findall1 table_header_rx readme in
      case map_err (get_table_start dyn readme) table_names of
        Inl e \<Rightarrow> Inl e
      | Inr table_starts \<Rightarrow>
          if table_names = [] then Inl IndexError
          else
            (case map_err (get_table_end table_starts (last table_names))
                    (enumerate 0 table_starts) of
               Inl e \<Rightarrow> Inl e
             | Inr table_info \<Rightarrow> store_schemas readme table_info Map.empty))"

section \<open>The table materializer\<close>

text \<open>
  The database is reached through SQLAlchemy. The model keeps what the program can
  observe of it: the tables the database holds, and the trace of the calls and log lines
  that \<open>ensure_table_exists\<close> makes.
\<close>

record table =
  tbl_name :: string
  tbl_columns :: "(string \<times> column_type) list"

datatype event =
    Debug_exists string      \<comment> \<open>the log line \<open>Table ... already exists\<close>\<close>
  | Create_all "string list" \<comment> \<open>the call \<open>metadata.create_all()\<close>, with the tables of the metadata\<close>
  | Info_created string      \<comment> \<open>the log line \<open>Created table ...\<close>\<close>

record connection =
  catalog :: "string \<rightharpoonup> table"
  trace :: "event list"

definition MetaData :: "connection \<Rightarrow> (string \<times> table) list" where
  \<comment> \<open>\<open>MetaData(connection)\<close>: a new collection of table definitions, bound to the
      connection. It holds no table until one is defined on it.\<close>
  "MetaData c = []"

definition create_all :: "(string \<times> table) list \<Rightarrow> connection \<Rightarrow> connection" where
  \<comment> \<open>\<open>metadata.create_all()\<close>: with its default \<open>checkfirst=True\<close> it issues
      \<open>CREATE TABLE\<close> for the tables the database does not hold.\<close>
  "create_all metadata c =
     c\<lparr>catalog := fold (\<lambda>(n, t) m. case m n of None \<Rightarrow> m(n \<mapsto> t) | Some _ \<Rightarrow> m)
                        metadata (catalog c),
       trace := trace c @ [Create_all (map fst metadata)]\<rparr>"

definition build_column :: "schema_row \<Rightarrow> error + (string \<times> column_type)" where
  "build_column row =
     (case get_field_type (field_type row) of
        Inl e \<Rightarrow> Inl e
      | Inr t \<Rightarrow> Inr (column row, t))"

definition ensure_table_exists ::
  "string \<Rightarrow> schema_row list \<Rightarrow> connection \<Rightarrow> error + (table \<times> connection)" where
  "ensure_table_exists table_name table_schema c =
     (let metadata = MetaData c in
      case map_of metadata table_name of
        Some t \<Rightarrow> Inr (t, c\<lparr>trace := trace c @ [Debug_exists table_name]\<rparr>)
      | None \<Rightarrow>
          (case map_err build_column table_schema of
             Inl e \<Rightarrow> Inl e
           | Inr cols \<Rightarrow>
               let t = \<lparr>tbl_name = table_name, tbl_columns = cols\<rparr>;
                   c' = create_all (metadata @ [(table_name, t)]) c
               in Inr (t, c'\<lparr>trace := trace c' @ [Info_created table_name]\<rparr>)))"

section \<open>The load orchestrator\<close>

definition file_is_for_table :: "string \<Rightarrow> string \<Rightarrow> bool" where
  "file_is_for_table name file_name \<longleftrightarrow>
     file_name = lower name @ ''.txt'' \<or> startswith file_name (lower name @ ''_'')"

definition output_row :: "string list \<Rightarrow> string list" where
  \<comment> \<open>\<open>[(item if item != '*' else '') for item in raw_row]\<close>\<close>
  "output_row raw_row = map (\<lambda>item. if item \<noteq> ''*'' then item else []) raw_row"

section \<open>Layout documents used below\<close>

definition person_layout :: string where
  \<comment> \<open>the layout fragment of the specification's testable properties\<close>
  "person_layout =
     ''PERSON - description'' @ [newline] @
     ''FIRST_NAME          NOT NULL VARCHAR2(20)    (1:20)'' @ [newline] @
     ''AGE                          NUMBER(3)        (21:23)'' @ [newline]"

definition short_tokens_layout :: string where
  \<comment> \<open>a header and two field lines with a one-character token, among well-formed ones\<close>
  "short_tokens_layout =
     ''A - x'' @ [newline] @
     ''BB - y'' @ [newline] @
     ''C  DD  (1:2)'' @ [newline] @
     ''EE  F  (1:2)'' @ [newline] @
     ''GG  HH  (1:2)'' @ [newline]"

definition repeated_header_layout :: string where
  \<comment> \<open>the table \<open>AA\<close> is declared twice, with one column each time\<close>
  "repeated_header_layout =
     ''AA - x'' @ [newline] @
     ''F1  T1  (1:2)'' @ [newline] @
     ''AA - y'' @ [newline] @
     ''G1  T1  (3:4)'' @ [newline]"

definition person_schema :: "schema_row list" where
  \<comment> \<open>the schema of \<open>person_layout\<close>\<close>
  "person_schema =
     [\<lparr>column = ''FIRST_NAME'', start = 1, length_col = 20, field_type = ''VARCHAR2(20)''\<rparr>,
      \<lparr>column = ''AGE'', start = 21, length_col = 3, field_type = ''NUMBER(3)''\<rparr>]"

definition person_table :: table where
  "person_table =
     \<lparr>tbl_name = ''PERSON'',
      tbl_columns = [(''FIRST_NAME'', String_t 20), (''AGE'', Integer_t)]\<rparr>"

definition empty_database :: connection where
  \<comment> \<open>a connection to a database without tables, before any call\<close>
  "empty_database = \<lparr>catalog = Map.empty, trace = []\<rparr>"

definition no_dyn :: "string \<Rightarrow> string \<Rightarrow> error + nat" where
  \<comment> \<open>a value for the parameter of \<open>get_table_start\<close> where no table name needs it\<close>
  "no_dyn name readme = Inl PatternError"

section \<open>The two parts of a type text\<close>

text \<open>
  What the pattern of \<open>get_field_type\<close> finds, written out: the type name is the text
  before the first opening parenthesis, and the arguments are the text after that
  parenthesis up to the last closing parenthesis of the same line, when at least one
  character stands between the two.
\<close>

definition type_name :: "string \<Rightarrow> string" where
  "type_name s = takeWhile (\<lambda>c. c \<noteq> CHR ''('') s"

definition last_close :: "string \<Rightarrow> string option" where
  "last_close seg =
     (let t = dropWhile (\<lambda>c. c \<noteq> CHR '')'') (rev seg)
      in if length t \<le> 1 then None else Some (take (length t - 1) seg))"

definition type_args :: "string \<Rightarrow> string option" where
  "type_args s =
     (case dropWhile (\<lambda>c. c \<noteq> CHR ''('') s of
        [] \<Rightarrow> None
      | _ # r \<Rightarrow> last_close (takeWhile (\<lambda>c. c \<noteq> newline) r))"

definition args_part :: rx where
  \<comment> \<open>the optional group of \<open>field_type_rx\<close>: \<open>\((?P<args>.+)\)\<close>\<close>
  "args_part = Then (Lit ''('') (Then (Grp ''args'' (Plus Dot)) (Then (Lit '')'') (Lit [])))"

section \<open>What a pattern matches\<close>

text \<open>
  The declarative reading of a pattern, used to reason about the matcher: \<open>sem r u h\<close>
  holds when the pattern \<open>r\<close> can match exactly the text \<open>u\<close> and then captures the
  groups \<open>h\<close> (the last captured first).
\<close>

fun sem :: "rx \<Rightarrow> string \<Rightarrow> groups \<Rightarrow> bool" where
  "sem Bol u h \<longleftrightarrow> u = [] \<and> h = []"
| "sem (Lit l) u h \<longleftrightarrow> u = l \<and> h = []"
| "sem (One k) u h \<longleftrightarrow> (\<exists>c. u = [c] \<and> in_cls k c) \<and> h = []"
| "sem (Plus k) u h \<longleftrightarrow> u \<noteq> [] \<and> list_all (in_cls k) u \<and> h = []"
| "sem (Star k) u h \<longleftrightarrow> list_all (in_cls k) u \<and> h = []"
| "sem (Opt r) u h \<longleftrightarrow> (u = [] \<and> h = []) \<or> sem r u h"
| "sem (Grp n r) u h \<longleftrightarrow> (\<exists>h'. h = (n, u) # h' \<and> sem r u h')"
| "sem (Then r1 r2) u h \<longleftrightarrow>
     (\<exists>u1 u2 h1 h2. u = u1 @ u2 \<and> h = h2 @ h1 \<and> sem r1 u1 h1 \<and> sem r2 u2 h2)"

section \<open>The matcher is sound\<close>

lemma consume_parts: "\<exists>b'. consume n (b, s, g) = (b', drop n s, g)"
  by (cases n) simp_all

lemma take_run: "n \<le> length (takeWhile P s) \<Longrightarrow> list_all P (take n s)"
proof (induction s arbitrary: n)
  case Nil
  then show ?case by simp
next
  case (Cons c cs)
  then show ?case by (cases n) (auto split: if_splits)
qed

lemma run_le: "length (takeWhile P s) \<le> length s"
  by (rule length_takeWhile_le)

lemma rx_match_sound:
  "(b', s', g') \<in> set (rx_match r (b, s, g)) \<Longrightarrow>
     \<exists>u h. s = u @ s' \<and> g' = h @ g \<and> sem r u h"
proof (induction r arbitrary: b s g b' s' g')
  case Bol
  then show ?case by (auto split: if_splits)
next
  case (Lit l)
  from Lit obtain b0 where "take (length l) s = l" "(b', s', g') = (b0, drop (length l) s, g)"
    using consume_parts [of "length l" b s g] by (auto split: if_splits)
  then have "s = l @ s'" "g' = g" using append_take_drop_id [of "length l" s] by auto
  then show ?case by simp
next
  case (One k)
  then show ?case by (auto split: list.splits if_splits)
next
  case (Plus k)
  then obtain n where n: "1 \<le> n" "n \<le> length (takeWhile (in_cls k) s)"
    and st: "(b', s', g') = consume n (b, s, g)" by (auto simp del: upt_Suc simp: less_Suc_eq_le)
  from st consume_parts [of n b s g] have "s' = drop n s" "g' = g" by auto
  moreover have "take n s \<noteq> []" using n run_le [of "in_cls k" s] by auto
  moreover have "list_all (in_cls k) (take n s)" using n take_run by blast
  ultimately have "s = take n s @ s' \<and> g' = [] @ g \<and> sem (Plus k) (take n s) []" by simp
  then show ?case by blast
next
  case (Star k)
  then obtain n where n: "n \<le> length (takeWhile (in_cls k) s)"
    and st: "(b', s', g') = consume n (b, s, g)" by (auto simp del: upt_Suc simp: less_Suc_eq_le)
  from st consume_parts [of n b s g] have "s' = drop n s" "g' = g" by auto
  moreover have "list_all (in_cls k) (take n s)" using n take_run by blast
  ultimately have "s = take n s @ s' \<and> g' = [] @ g \<and> sem (Star k) (take n s) []" by simp
  then show ?case by blast
next
  case (Opt r)
  then show ?case by fastforce
next
  case (Grp name r)
  then obtain g0 where m: "(b', s', g0) \<in> set (rx_match r (b, s, g))"
    and g': "g' = (name, take (length s - length s') s) # g0" by auto
  from Grp.IH [OF m] obtain u h where "s = u @ s'" "g0 = h @ g" "sem r u h" by blast
  with g' have "s = u @ s' \<and> g' = ((name, u) # h) @ g \<and> sem (Grp name r) u ((name, u) # h)"
    by simp
  then show ?case by blast
next
  case (Then r1 r2)
  then obtain b1 s1 g1 where m1: "(b1, s1, g1) \<in> set (rx_match r1 (b, s, g))"
    and m2: "(b', s', g') \<in> set (rx_match r2 (b1, s1, g1))" by auto
  from Then.IH(1) [OF m1] obtain u1 h1 where a: "s = u1 @ s1" "g1 = h1 @ g" "sem r1 u1 h1" by blast
  from Then.IH(2) [OF m2] obtain u2 h2 where c: "s1 = u2 @ s'" "g' = h2 @ g1" "sem r2 u2 h2" by blast
  from a c have "s = (u1 @ u2) @ s' \<and> g' = (h2 @ h1) @ g \<and> sem (Then r1 r2) (u1 @ u2) (h2 @ h1)"
    by auto
  then show ?case by blast
qed

lemma finditer_from_sound:
  "(a, e, g) \<in> set (finditer_from r k off b s) \<Longrightarrow> \<exists>u. sem r u g"
proof (induction r k off b s rule: finditer_from.induct)
  case (1 r k off b c cs)
  then show ?case by simp
next
  case (2 r off b c cs)
  show ?case
  proof (cases "rx_match r (b, c # cs, [])")
    case Nil
    with 2 show ?thesis by simp
  next
    case (Cons st sts)
    obtain b1 s1 g1 where st: "st = (b1, s1, g1)" by (cases st)
    have "(b1, s1, g1) \<in> set (rx_match r (b, c # cs, []))" using Cons st by simp
    from rx_match_sound [OF this] have here: "\<exists>u. sem r u g1" by auto
    from "2.prems" Cons st have "(a, e, g) = (off, off + (Suc (length cs) - length s1), g1) \<or>
       (a, e, g) \<in> set (finditer_from r (length cs - length s1) (Suc off) (c = newline) cs)"
      by simp
    then show ?thesis using here "2.IH"(2) [OF Cons st [symmetric]] 
      by auto
  qed
next
  case (3 r k off b)
  from "3.prems" have k: "k = 0" by (cases "k = 0") simp_all
  with "3.prems" obtain b1 s1 sts where "rx_match r (b, [], []) = (b1, s1, g) # sts"
    by (auto split: list.splits) metis
  then have "(b1, s1, g) \<in> set (rx_match r (b, [], []))" by simp
  from rx_match_sound [OF this] show ?case by auto
qed

lemma startswith_iff: "startswith s p \<longleftrightarrow> (\<exists>r. s = p @ r)"
proof
  assume "startswith s p"
  then have "s = p @ drop (length p) s"
    by (metis append_take_drop_id startswith_def)
  then show "\<exists>r. s = p @ r" ..
next
  assume "\<exists>r. s = p @ r"
  then show "startswith s p"
    by (auto simp: startswith_def)
qed

section \<open>Decimal texts\<close>

lemma digit_not_sign:
  "is_digit c \<Longrightarrow> c \<noteq> CHR ''_'' \<and> c \<noteq> CHR ''-'' \<and> c \<noteq> CHR ''+'' \<and> \<not> is_int_space c"
  by (auto simp: is_digit_def is_int_space_def code_def)

lemma digits_ok_digits: "s \<noteq> [] \<Longrightarrow> list_all is_digit s \<Longrightarrow> digits_ok s"
proof (induction s rule: digits_ok.induct)
  case 1
  then show ?case by simp
next
  case (2 c)
  then show ?case by simp
next
  case (3 c d cs)
  then show ?case using digit_not_sign [of d] by simp
qed

lemma strip_int_digits:
  assumes "s \<noteq> []" "list_all is_digit s"
  shows "strip_int s = s"
proof -
  have "is_digit (hd s)" "is_digit (last s)"
    using assms by (auto simp: list_all_iff)
  then have a: "\<not> is_int_space (hd s)" and b: "\<not> is_int_space (last s)"
    using digit_not_sign by blast+
  from a assms have "dropWhile is_int_space s = s"
    by (cases s) auto
  moreover from b assms have "dropWhile is_int_space (rev s) = rev s"
    by (cases "rev s") (auto simp: last_rev hd_rev [symmetric] simp flip: hd_rev)
  ultimately show ?thesis by (simp add: strip_int_def)
qed

lemma int_of_str_digits:
  assumes "s \<noteq> []" "list_all is_digit s"
  shows "int_of_str s = Inr (digits_value s)"
proof -
  obtain c cs where s: "s = c # cs" using assms by (cases s) auto
  with assms have "is_digit c" by simp
  then have "c \<noteq> CHR ''-''" "c \<noteq> CHR ''+''" using digit_not_sign by blast+
  then show ?thesis
    using assms s strip_int_digits [OF assms] digits_ok_digits [OF assms]
    by (simp add: int_of_str_def)
qed

section \<open>Field declarations\<close>

lemma in_cls_simps: "in_cls Dg = is_digit" "in_cls Ws = is_space"
  by (rule ext, simp)+

lemma field_spec_sem:
  "sem field_spec_rx u g \<Longrightarrow>
     \<exists>nm ty sc ec.
       g = [(''end_column'', ec), (''start_column'', sc), (''field_type'', ty), (''field_name'', nm)]
       \<and> 2 \<le> length nm \<and> 2 \<le> length ty
       \<and> sc \<noteq> [] \<and> list_all is_digit sc \<and> ec \<noteq> [] \<and> list_all is_digit ec"
  by (auto simp: field_spec_rx_def seq_def in_cls_simps Suc_le_eq)

lemma finditer_field_shape:
  assumes "(a, e, g) \<in> set (finditer field_spec_rx s)"
  shows "\<exists>nm ty sc ec.
       g = [(''end_column'', ec), (''start_column'', sc), (''field_type'', ty), (''field_name'', nm)]
       \<and> 2 \<le> length nm \<and> 2 \<le> length ty
       \<and> sc \<noteq> [] \<and> list_all is_digit sc \<and> ec \<noteq> [] \<and> list_all is_digit ec"
proof -
  from assms obtain u where "sem field_spec_rx u g"
    unfolding finditer_def using finditer_from_sound by blast
  then show ?thesis by (rule field_spec_sem)
qed

lemma make_row_shape:
  assumes "g = [(''end_column'', ec), (''start_column'', sc), (''field_type'', ty), (''field_name'', nm)]"
    and "sc \<noteq> []" "list_all is_digit sc" "ec \<noteq> []" "list_all is_digit ec"
  shows "make_row g =
     Inr \<lparr>column = nm, start = digits_value sc,
          length_col = digits_value ec - digits_value sc + 1, field_type = ty\<rparr>"
  using assms int_of_str_digits [of sc] int_of_str_digits [of ec]
  by (simp add: make_row_def py_int_def group_def group_text_def)

lemma make_schema_io_map:
  "(\<And>g. g \<in> set gs \<Longrightarrow> make_row g = Inr (f g)) \<Longrightarrow> make_schema_io gs = Inr (map f gs)"
  by (induction gs) simp_all

lemma extract_schema_total:
  "extract_schema s =
     Inr (map (\<lambda>g. case make_row g of Inr r \<Rightarrow> r) (map (\<lambda>(a, e, g). g) (finditer field_spec_rx s)))"
  unfolding extract_schema_def
proof (rule make_schema_io_map)
  fix g assume "g \<in> set (map (\<lambda>(a, e, g). g) (finditer field_spec_rx s))"
  then obtain a e where "(a, e, g) \<in> set (finditer field_spec_rx s)" by auto
  from finditer_field_shape [OF this] make_row_shape
  obtain r where "make_row g = Inr r" by blast
  then show "make_row g = Inr (case make_row g of Inr r \<Rightarrow> r)" by simp
qed

lemma extract_schema_rows_wide:
  assumes "extract_schema s = Inr rows" "r \<in> set rows"
  shows "2 \<le> length (column r) \<and> 2 \<le> length (field_type r)"
proof -
  from assms extract_schema_total [of s]
  obtain a e g where m: "(a, e, g) \<in> set (finditer field_spec_rx s)"
    and r: "r = (case make_row g of Inr r \<Rightarrow> r)" by auto
  from finditer_field_shape [OF m] obtain nm ty sc ec where
    g: "g = [(''end_column'', ec), (''start_column'', sc), (''field_type'', ty), (''field_name'', nm)]"
    and w: "2 \<le> length nm" "2 \<le> length ty"
    and d: "sc \<noteq> []" "list_all is_digit sc" "ec \<noteq> []" "list_all is_digit ec" by blast
  from r make_row_shape [OF g d] w show ?thesis by simp
qed

section \<open>Table headers and the schema mapping\<close>

lemma table_header_sem:
  "sem table_header_rx u g \<Longrightarrow> \<exists>nm. g = [(''1'', nm)] \<and> 2 \<le> length nm"
  by (auto simp: table_header_rx_def seq_def Suc_le_eq)

lemma findall1_header_names:
  assumes "n \<in> set (findall1 table_header_rx s)"
  shows "2 \<le> length n"
proof -
  from assms obtain a e g where m: "(a, e, g) \<in> set (finditer table_header_rx s)"
    and n: "n = group_text g ''1''" by (auto simp: findall1_def)
  from m obtain u where "sem table_header_rx u g"
    unfolding finditer_def using finditer_from_sound by blast
  from table_header_sem [OF this] n show ?thesis by (auto simp: group_def group_text_def)
qed

lemma map_err_all2:
  "map_err f xs = Inr ys \<Longrightarrow> list_all2 (\<lambda>x y. f x = Inr y) xs ys"
  by (induction xs arbitrary: ys) (auto split: sum.splits)

lemma get_table_start_name:
  "get_table_start dyn readme n = Inr p \<Longrightarrow> fst p = n"
  by (auto simp: get_table_start_def split: if_splits option.splits sum.splits)

lemma get_table_end_name:
  "get_table_end ts l it = Inr q \<Longrightarrow> fst q = fst (snd it)"
  by (auto simp: get_table_end_def split: if_splits prod.splits)

lemma all2_map_eq:
  "list_all2 (\<lambda>x y. g y = h x) xs ys \<Longrightarrow> map g ys = map h xs"
  by (induction xs ys rule: list_all2_induct) auto

lemma table_starts_names:
  assumes "map_err (get_table_start dyn readme) names = Inr ts"
  shows "map fst ts = names"
proof -
  from map_err_all2 [OF assms]
  have "list_all2 (\<lambda>n p. fst p = id n) names ts"
    by (rule list_all2_mono) (auto dest: get_table_start_name)
  from all2_map_eq [OF this] show ?thesis by simp
qed

lemma table_info_names:
  assumes "map_err (get_table_end ts l) (enumerate k ts) = Inr info"
  shows "map fst info = map fst ts"
proof -
  from map_err_all2 [OF assms]
  have "list_all2 (\<lambda>it q. fst q = (fst \<circ> snd) it) (enumerate k ts) info"
    by (rule list_all2_mono) (auto dest: get_table_end_name)
  from all2_map_eq [OF this] have "map fst info = map (fst \<circ> snd) (enumerate k ts)" .
  also have "\<dots> = map fst (map snd (enumerate k ts))" by (simp only: map_map)
  also have "\<dots> = map fst ts" by (simp only: map_snd_enumerate)
  finally show ?thesis .
qed

lemma store_schemas_entries:
  "store_schemas readme info m0 = Inr m \<Longrightarrow> m name = Some rows \<Longrightarrow>
     m0 name = Some rows \<or>
     (name \<in> fst ` set info \<and> (\<exists>frag. extract_schema frag = Inr rows))"
proof (induction readme info m0 rule: store_schemas.induct)
  case (1 readme schemas)
  then show ?case by simp
next
  case (2 readme table_name table_start table_end rest schemas)
  from "2.prems"(1) obtain schema where
    ex: "extract_schema (slice readme table_start table_end) = Inr schema"
    and st: "store_schemas readme rest (schemas(table_name \<mapsto> schema)) = Inr m"
    by (auto split: sum.splits)
  from "2.IH" [OF ex st "2.prems"(2)] ex show ?case
    by (auto split: if_splits)
qed

section \<open>Columns of a schema\<close>

lemma extract_table_schemas_single:
  assumes "findall1 table_header_rx readme = [n]"
    and "literal_pattern n"
    and "re_search (seq [Bol, Lit n, Lit '' - '']) readme = Some (a, e, g)"
    and "extract_schema (drop a readme) = Inr rows"
  shows "extract_table_schemas dyn readme = Inr [n \<mapsto> rows]"
  using assms
  by (simp add: extract_table_schemas_def get_table_start_def get_table_end_def slice_def)

lemma person_layout_schemas:
  "extract_table_schemas dyn person_layout =
     Inr [''PERSON'' \<mapsto>
       [\<lparr>column = ''FIRST_NAME'', start = 1, length_col = 20, field_type = ''VARCHAR2(20)''\<rparr>,
        \<lparr>column = ''AGE'', start = 21, length_col = 3, field_type = ''NUMBER(3)''\<rparr>]]"
proof (rule extract_table_schemas_single)
  show "findall1 table_header_rx person_layout = [''PERSON'']"
    by code_simp
  show "literal_pattern ''PERSON''"
    by code_simp
  show "re_search (seq [Bol, Lit ''PERSON'', Lit '' - '']) person_layout
          = Some (0, 9, [])"
    by code_simp
  show "extract_schema (drop 0 person_layout) =
     Inr [\<lparr>column = ''FIRST_NAME'', start = 1, length_col = 20, field_type = ''VARCHAR2(20)''\<rparr>,
        \<lparr>column = ''AGE'', start = 21, length_col = 3, field_type = ''NUMBER(3)''\<rparr>]"
    by code_simp
qed

text \<open>
  C7. Every match of the field-declaration pattern in a fragment gives one row of the
  schema, in the order of the matches. The two numbers of a match are non-empty digit
  texts \<open>sc\<close> and \<open>ec\<close>, the row's \<open>start\<close> is the number \<open>sc\<close> denotes, and its
  \<open>length\<close> is the number of \<open>ec\<close> minus that of \<open>sc\<close> plus 1. The layout fragment
  of the specification yields the table \<open>PERSON\<close> alone, with the columns
  \<open>FIRST_NAME\<close> (start 1, length 20, \<open>VARCHAR2(20)\<close>) and \<open>AGE\<close> (start 21, length
  3, \<open>NUMBER(3)\<close>), in that order.
\<close>

theorem extract_schema_offsets:
  "(\<exists>rows. extract_schema fragment = Inr rows \<and>
     length rows = length (finditer field_spec_rx fragment) \<and>
     (\<forall>i < length rows. \<exists>a e g nm ty sc ec.
        finditer field_spec_rx fragment ! i = (a, e, g) \<and>
        group g ''field_name'' = Some nm \<and> group g ''field_type'' = Some ty \<and>
        group g ''start_column'' = Some sc \<and> group g ''end_column'' = Some ec \<and>
        sc \<noteq> [] \<and> list_all is_digit sc \<and> ec \<noteq> [] \<and> list_all is_digit ec \<and>
        rows ! i = \<lparr>column = nm, start = digits_value sc,
                     length_col = digits_value ec - digits_value sc + 1, field_type = ty\<rparr>)) \<and>
   extract_table_schemas dyn person_layout =
     Inr [''PERSON'' \<mapsto>
       [\<lparr>column = ''FIRST_NAME'', start = 1, length_col = 20, field_type = ''VARCHAR2(20)''\<rparr>,
        \<lparr>column = ''AGE'', start = 21, length_col = 3, field_type = ''NUMBER(3)''\<rparr>]]"
proof
  show "\<exists>rows. extract_schema fragment = Inr rows \<and>
     length rows = length (finditer field_spec_rx fragment) \<and>
     (\<forall>i < length rows. \<exists>a e g nm ty sc ec.
        finditer field_spec_rx fragment ! i = (a, e, g) \<and>
        group g ''field_name'' = Some nm \<and> group g ''field_type'' = Some ty \<and>
        group g ''start_column'' = Some sc \<and> group g ''end_column'' = Some ec \<and>
        sc \<noteq> [] \<and> list_all is_digit sc \<and> ec \<noteq> [] \<and> list_all is_digit ec \<and>
        rows ! i = \<lparr>column = nm, start = digits_value sc,
                     length_col = digits_value ec - digits_value sc + 1, field_type = ty\<rparr>)"
  proof -
    let ?ms = "finditer field_spec_rx fragment"
    let ?rows = "map (\<lambda>g. case make_row g of Inr r \<Rightarrow> r) (map (\<lambda>(a, e, g). g) ?ms)"
    have "\<exists>a e g nm ty sc ec.
          ?ms ! i = (a, e, g) \<and>
          group g ''field_name'' = Some nm \<and> group g ''field_type'' = Some ty \<and>
          group g ''start_column'' = Some sc \<and> group g ''end_column'' = Some ec \<and>
          sc \<noteq> [] \<and> list_all is_digit sc \<and> ec \<noteq> [] \<and> list_all is_digit ec \<and>
          ?rows ! i = \<lparr>column = nm, start = digits_value sc,
                       length_col = digits_value ec - digits_value sc + 1, field_type = ty\<rparr>"
      if i: "i < length ?ms" for i
    proof -
      obtain a e g where m: "?ms ! i = (a, e, g)" by (cases "?ms ! i")
      with i have "(a, e, g) \<in> set ?ms" by (metis nth_mem)
      from finditer_field_shape [OF this] obtain nm ty sc ec where
        g: "g = [(''end_column'', ec), (''start_column'', sc), (''field_type'', ty), (''field_name'', nm)]"
        and d: "sc \<noteq> []" "list_all is_digit sc" "ec \<noteq> []" "list_all is_digit ec" by blast
      have "?rows ! i = \<lparr>column = nm, start = digits_value sc,
                       length_col = digits_value ec - digits_value sc + 1, field_type = ty\<rparr>"
        using i m make_row_shape [OF g d] by simp
      moreover have "group g ''field_name'' = Some nm" "group g ''field_type'' = Some ty"
        "group g ''start_column'' = Some sc" "group g ''end_column'' = Some ec"
        using g by (simp_all add: group_def)
      ultimately show ?thesis using m d by blast
    qed
    then show ?thesis using extract_schema_total [of fragment] by simp
  qed
  show "extract_table_schemas dyn person_layout =
     Inr [''PERSON'' \<mapsto>
       [\<lparr>column = ''FIRST_NAME'', start = 1, length_col = 20, field_type = ''VARCHAR2(20)''\<rparr>,
        \<lparr>column = ''AGE'', start = 21, length_col = 3, field_type = ''NUMBER(3)''\<rparr>]]"
    by (rule person_layout_schemas)
qed

theorem extract_schema_offsets_witness:
  "extract_schema ''AB  CD (3:7)'' =
     Inr [\<lparr>column = ''AB'', start = 3, length_col = 5, field_type = ''CD''\<rparr>]"
proof -
  have ms: "finditer field_spec_rx ''AB  CD (3:7)'' =
      [(0, 12, [(''end_column'', ''7''), (''start_column'', ''3''),
                (''field_type'', ''CD''), (''field_name'', ''AB'')])]"
    by code_simp
  have v: "digits_value ''3'' = 3" "digits_value ''7'' = 7"
    by code_simp+
  from extract_schema_offsets [of "''AB  CD (3:7)''" no_dyn]
  obtain rows where r: "extract_schema ''AB  CD (3:7)'' = Inr rows"
    and n: "length rows = length (finditer field_spec_rx ''AB  CD (3:7)'')"
    and each: "\<forall>i < length rows. \<exists>a e g nm ty sc ec.
        finditer field_spec_rx ''AB  CD (3:7)'' ! i = (a, e, g) \<and>
        group g ''field_name'' = Some nm \<and> group g ''field_type'' = Some ty \<and>
        group g ''start_column'' = Some sc \<and> group g ''end_column'' = Some ec \<and>
        sc \<noteq> [] \<and> list_all is_digit sc \<and> ec \<noteq> [] \<and> list_all is_digit ec \<and>
        rows ! i = \<lparr>column = nm, start = digits_value sc,
                     length_col = digits_value ec - digits_value sc + 1, field_type = ty\<rparr>"
    by blast
  from n ms have len: "length rows = 1" by simp
  with each ms v have "rows ! 0 = \<lparr>column = ''AB'', start = 3, length_col = 5, field_type = ''CD''\<rparr>"
    by (auto simp: group_def)
  with len have "rows = [\<lparr>column = ''AB'', start = 3, length_col = 5, field_type = ''CD''\<rparr>]"
    by (cases rows) auto
  with r show ?thesis by simp
qed

text \<open>
  C10. Whatever the layout document, a table that \<open>extract_table_schemas\<close> records
  has a name of at least two characters, and each of its columns has a field name and a
  field type of at least two characters: the header pattern and the field pattern both
  ask for an upper-case letter and at least one more character, so a line whose token
  is a single character is passed over.
\<close>

theorem recorded_tokens_not_single:
  assumes "extract_table_schemas dyn readme = Inr schemas" "schemas name = Some rows"
  shows "2 \<le> length name \<and>
     (\<forall>r \<in> set rows. 2 \<le> length (column r) \<and> 2 \<le> length (field_type r))"
proof -
  define names where "names = findall1 table_header_rx readme"
  from assms(1) obtain ts info where
    ts: "map_err (get_table_start dyn readme) names = Inr ts"
    and info: "map_err (get_table_end ts (last names)) (enumerate 0 ts) = Inr info"
    and st: "store_schemas readme info Map.empty = Inr schemas"
    by (auto simp: extract_table_schemas_def Let_def names_def split: sum.splits if_splits)
  from store_schemas_entries [OF st assms(2)] obtain frag where
    n: "name \<in> fst ` set info" and frag: "extract_schema frag = Inr rows" by auto
  from n have "name \<in> set (map fst info)" by simp
  then have "name \<in> set names"
    using table_info_names [OF info] table_starts_names [OF ts] by simp
  then have "2 \<le> length name" unfolding names_def by (rule findall1_header_names)
  moreover have "\<forall>r \<in> set rows. 2 \<le> length (column r) \<and> 2 \<le> length (field_type r)"
    using extract_schema_rows_wide [OF frag] by blast
  ultimately show ?thesis by blast
qed

lemma short_tokens_layout_schemas:
  "extract_table_schemas dyn short_tokens_layout =
     Inr [''BB'' \<mapsto> [\<lparr>column = ''GG'', start = 1, length_col = 2, field_type = ''HH''\<rparr>]]"
proof (rule extract_table_schemas_single)
  show "findall1 table_header_rx short_tokens_layout = [''BB'']"
    by code_simp
  show "literal_pattern ''BB''"
    by code_simp
  show "re_search (seq [Bol, Lit ''BB'', Lit '' - '']) short_tokens_layout = Some (6, 11, [])"
    by code_simp
  show "extract_schema (drop 6 short_tokens_layout) =
     Inr [\<lparr>column = ''GG'', start = 1, length_col = 2, field_type = ''HH''\<rparr>]"
    by code_simp
qed

theorem recorded_tokens_not_single_witness:
  "extract_table_schemas no_dyn short_tokens_layout =
     Inr [''BB'' \<mapsto> [\<lparr>column = ''GG'', start = 1, length_col = 2, field_type = ''HH''\<rparr>]] \<and>
   2 \<le> length ''BB'' \<and> 2 \<le> length ''GG'' \<and> 2 \<le> length ''HH''"
  using recorded_tokens_not_single [OF short_tokens_layout_schemas [of no_dyn],
      of "''BB''" "[\<lparr>column = ''GG'', start = 1, length_col = 2, field_type = ''HH''\<rparr>]"]
    short_tokens_layout_schemas [of no_dyn]
  by simp

section \<open>The pattern of the type mapper\<close>

lemma rx_match_Lit_Nil: "rx_match (Lit []) st = [st]"
  by (cases st) simp

lemma concat_singletons: "concat (map (\<lambda>x. [x]) xs) = xs"
  by (induction xs) simp_all

lemma rx_match_Then_Nil: "rx_match (Then r (Lit [])) st = rx_match r st"
proof -
  have "rx_match (Lit []) = (\<lambda>x. [x])"
    by (rule ext) (rule rx_match_Lit_Nil)
  then show ?thesis by (simp add: concat_singletons)
qed

lemma concat_hits:
  "concat (map (\<lambda>k. if P k then [f k] else []) ks) = map f (filter P ks)"
  by (induction ks) simp_all

lemma greatest_hit:
  assumes "1 \<le> j" "j \<le> m" "P j" "\<And>k. j < k \<Longrightarrow> k \<le> m \<Longrightarrow> \<not> P k"
  shows "filter P (rev [1 ..< Suc m]) = j # filter P (rev [1 ..< j])"
proof -
  have "[1 ..< j + (Suc m - j)] = [1 ..< j] @ [j ..< j + (Suc m - j)]"
    using assms(1) by (rule upt_add_eq_append)
  moreover have "j + (Suc m - j) = Suc m"
    using assms(2) by simp
  ultimately have "[1 ..< Suc m] = [1 ..< j] @ [j ..< Suc m]"
    by simp
  also have "[j ..< Suc m] = j # [Suc j ..< Suc m]"
    using assms(2) by (simp add: upt_conv_Cons)
  finally have "rev [1 ..< Suc m] = rev [Suc j ..< Suc m] @ j # rev [1 ..< j]"
    by simp
  moreover have "filter P (rev [Suc j ..< Suc m]) = []"
    using assms(4) by (auto simp: filter_empty_conv)
  ultimately show ?thesis using assms(3) by simp
qed

lemma no_hit:
  assumes "\<And>k. 1 \<le> k \<Longrightarrow> k \<le> m \<Longrightarrow> \<not> P k"
  shows "filter P (rev [1 ..< Suc m]) = []"
  using assms by (auto simp: filter_empty_conv)

lemma last_close_Some:
  assumes "last_close seg = Some a"
  shows "\<exists>post. seg = a @ CHR '')'' # post \<and> a \<noteq> [] \<and> CHR '')'' \<notin> set post"
proof -
  define p where "p = takeWhile (\<lambda>c. c \<noteq> CHR '')'') (rev seg)"
  define t where "t = dropWhile (\<lambda>c. c \<noteq> CHR '')'') (rev seg)"
  from assms have len: "1 < length t" and a: "a = take (length t - 1) seg"
    by (auto simp: last_close_def Let_def t_def split: if_splits)
  from len obtain c t' where t: "t = c # t'" and t': "t' \<noteq> []"
    by (cases t) auto
  have "t \<noteq> []" using t by simp
  then have "\<not> (hd t \<noteq> CHR '')'')"
    unfolding t_def by (rule hd_dropWhile)
  with t have c: "c = CHR '')''" by simp
  have "rev seg = p @ t" by (simp add: p_def t_def)
  then have "rev (rev seg) = rev (p @ t)" by simp
  then have seg: "seg = rev t' @ CHR '')'' # rev p" using t c by simp
  have "a = rev t'" using a t seg by simp
  moreover have "CHR '')'' \<notin> set (rev p)"
    unfolding p_def by (auto dest: set_takeWhileD)
  ultimately show ?thesis using seg t' by blast
qed

lemma last_close_None:
  assumes "last_close seg = None"
  shows "CHR '')'' \<notin> set (tl seg)"
proof -
  define p where "p = takeWhile (\<lambda>c. c \<noteq> CHR '')'') (rev seg)"
  define t where "t = dropWhile (\<lambda>c. c \<noteq> CHR '')'') (rev seg)"
  from assms have len: "length t \<le> 1"
    by (auto simp: last_close_def Let_def t_def split: if_splits)
  have np: "CHR '')'' \<notin> set (rev p)"
    unfolding p_def by (auto dest: set_takeWhileD)
  have "rev seg = p @ t" by (simp add: p_def t_def)
  then have "rev (rev seg) = rev (p @ t)" by simp
  then have seg: "seg = rev t @ rev p" by simp
  show ?thesis
  proof (cases t)
    case Nil
    with seg have "set (tl seg) \<subseteq> set (rev p)"
      by (cases "rev p") auto
    with np show ?thesis by blast
  next
    case (Cons c t')
    with len have "t' = []" by simp
    with Cons seg have "tl seg = rev p" by simp
    with np show ?thesis by simp
  qed
qed

lemma hit_iff: "take (Suc 0) (drop k r) = [c] \<longleftrightarrow> k < length r \<and> r ! k = c"
proof (cases "k < length r")
  case True
  then have "drop k r = r ! k # drop (Suc k) r" by (rule Cons_nth_drop_Suc [symmetric])
  then show ?thesis using True by simp
next
  case False
  then show ?thesis by simp
qed

lemma line_hit:
  assumes "k \<le> length (takeWhile (\<lambda>c. c \<noteq> newline) r)"
  shows "take (Suc 0) (drop k r) = '')'' \<longleftrightarrow>
         k < length (takeWhile (\<lambda>c. c \<noteq> newline) r) \<and>
         takeWhile (\<lambda>c. c \<noteq> newline) r ! k = CHR '')''"
proof (cases "k < length (takeWhile (\<lambda>c. c \<noteq> newline) r)")
  case True
  then have "takeWhile (\<lambda>c. c \<noteq> newline) r ! k = r ! k" by (rule takeWhile_nth)
  moreover have "k < length r"
    using True length_takeWhile_le [of "\<lambda>c. c \<noteq> newline" r] by simp
  ultimately show ?thesis using True by (simp add: hit_iff)
next
  case False
  with assms have k: "k = length (takeWhile (\<lambda>c. c \<noteq> newline) r)" by simp
  have "r ! k \<noteq> CHR '')''" if "k < length r"
  proof -
    from that k have "\<not> (r ! k \<noteq> newline)"
      using nth_length_takeWhile [of "\<lambda>c. c \<noteq> newline" r] by simp
    then show ?thesis by (simp add: newline_def)
  qed
  with False show ?thesis by (auto simp: hit_iff)
qed

lemma args_part_match:
  "rx_match args_part (b, CHR ''('' # r, g) =
     map (\<lambda>k. (False, drop (Suc k) r, (''args'', take k r) # g))
       (filter (\<lambda>k. take (Suc 0) (drop k r) = '')'')
          (rev [1 ..< Suc (length (takeWhile (\<lambda>c. c \<noteq> newline) r))]))"
proof -
  let ?m = "length (takeWhile (\<lambda>c. c \<noteq> newline) r)"
  let ?ks = "rev [1 ..< Suc ?m]"
  have dot: "in_cls Dot = (\<lambda>c. c \<noteq> newline)" by (rule ext) simp
  have first: "rx_match (Lit ''('') (b, CHR ''('' # r, g) = [(False, r, g)]"
    by (simp add: newline_def)
  have each: "(\<lambda>(b', s', g'). (b', s', (''args'', take (length r - length s') r) # g'))
                (consume n (False, r, g)) =
              (r ! (n - 1) = newline, drop n r, (''args'', take n r) # g)"
    if "n \<in> set ?ks" for n
  proof -
    from that have n: "1 \<le> n" "n \<le> ?m" by auto
    then have "n \<le> length r"
      using length_takeWhile_le [of "\<lambda>c. c \<noteq> newline" r] by simp
    with n show ?thesis by (cases n) simp_all
  qed
  have second: "rx_match (Grp ''args'' (Plus Dot)) (False, r, g) =
      map (\<lambda>n. (r ! (n - 1) = newline, drop n r, (''args'', take n r) # g)) ?ks"
    using each by (simp add: dot)
  have third: "rx_match (Then (Lit '')'') (Lit [])) (b', drop n r, g') =
      (if take (Suc 0) (drop n r) = '')'' then [(False, drop (Suc n) r, g')] else [])"
    for b' n g'
  proof (cases "take (Suc 0) (drop n r) = '')''")
    case True
    then have "n < length r" "r ! n = CHR '')''" by (simp_all add: hit_iff)
    then have "drop n r ! 0 = CHR '')''" by simp
    with True show ?thesis
      by (simp add: rx_match_Then_Nil newline_def)
  next
    case False
    then show ?thesis by (simp add: rx_match_Then_Nil)
  qed
  have "rx_match args_part (b, CHR ''('' # r, g) =
      concat (map (rx_match (Then (Lit '')'') (Lit [])))
        (rx_match (Grp ''args'' (Plus Dot)) (False, r, g)))"
    unfolding args_part_def using first by simp
  also have "\<dots> = concat (map (\<lambda>n. if take (Suc 0) (drop n r) = '')''
         then [(False, drop (Suc n) r, (''args'', take n r) # g)] else []) ?ks)"
    unfolding second by (simp only: map_map o_def third)
  also have "\<dots> = map (\<lambda>k. (False, drop (Suc k) r, (''args'', take k r) # g))
       (filter (\<lambda>k. take (Suc 0) (drop k r) = '')'') ?ks)"
    by (rule concat_hits)
  finally show ?thesis .
qed

lemma args_part_no_paren:
  "s = [] \<or> hd s \<noteq> CHR ''('' \<Longrightarrow> rx_match args_part (b, s, g) = []"
  by (cases s) (auto simp: args_part_def)

lemma args_part_groups:
  "map (\<lambda>(b', s', h). h) (rx_match args_part (b, CHR ''('' # r, g)) =
     (case last_close (takeWhile (\<lambda>c. c \<noteq> newline) r) of
        None \<Rightarrow> []
      | Some a \<Rightarrow>
          ((''args'', a) # g) #
            map (\<lambda>k. (''args'', take k r) # g)
              (filter (\<lambda>k. take (Suc 0) (drop k r) = '')'') (rev [1 ..< length a])))"
proof -
  let ?seg = "takeWhile (\<lambda>c. c \<noteq> newline) r"
  let ?m = "length ?seg"
  let ?P = "\<lambda>k. take (Suc 0) (drop k r) = '')''"
  have groups: "map (\<lambda>(b', s', h). h) (rx_match args_part (b, CHR ''('' # r, g)) =
      map (\<lambda>k. (''args'', take k r) # g) (filter ?P (rev [1 ..< Suc ?m]))"
    by (simp add: args_part_match o_def)
  show ?thesis
  proof (cases "last_close ?seg")
    case None
    from last_close_None [OF None] have np: "CHR '')'' \<notin> set (tl ?seg)" .
    have "\<not> ?P k" if k: "1 \<le> k" "k \<le> ?m" for k
    proof
      assume "?P k"
      with k(2) have lt: "k < ?m" and hit: "?seg ! k = CHR '')''"
        by (simp_all add: line_hit)
      from k(1) lt have "?seg ! k = tl ?seg ! (k - 1)" "k - 1 < length (tl ?seg)"
        by (simp_all add: nth_tl)
      then have "?seg ! k \<in> set (tl ?seg)" by (metis nth_mem)
      with hit np show False by simp
    qed
    then have "filter ?P (rev [1 ..< Suc ?m]) = []" by (rule no_hit)
    with groups None show ?thesis by simp
  next
    case (Some a)
    from last_close_Some [OF Some] obtain post where
      seg: "?seg = a @ CHR '')'' # post" and a: "a \<noteq> []" and np: "CHR '')'' \<notin> set post"
      by blast
    let ?j = "length a"
    have len: "?m = ?j + Suc (length post)"
      by (subst seg) simp
    have j: "1 \<le> ?j" "?j \<le> ?m" using a len by (simp_all add: Suc_le_eq)
    have "?seg ! ?j = CHR '')''" by (subst seg) simp
    with len have Pj: "?P ?j" using line_hit [of ?j r] by simp
    have "\<not> ?P k" if k: "?j < k" "k \<le> ?m" for k
    proof
      assume "?P k"
      with k(2) have lt: "k < ?m" and hit: "?seg ! k = CHR '')''"
        by (simp_all add: line_hit)
      have "(a @ CHR '')'' # post) ! k = post ! (k - Suc ?j)"
        using k(1) by (simp add: nth_append nth_Cons')
      then have "?seg ! k = post ! (k - Suc ?j)" by (simp only: seg [symmetric])
      moreover from k(1) lt len have "k - Suc ?j < length post" by simp
      ultimately have "?seg ! k = post ! (k - Suc ?j)" "k - Suc ?j < length post" by blast+
      then have "?seg ! k \<in> set post" by (metis nth_mem)
      with hit np show False by simp
    qed
    with j Pj have "filter ?P (rev [1 ..< Suc ?m]) = ?j # filter ?P (rev [1 ..< ?j])"
      by (intro greatest_hit) auto
    moreover have "take ?j r = a"
    proof -
      have "r = ?seg @ dropWhile (\<lambda>c. c \<noteq> newline) r" by simp
      then have "take ?j r = take ?j (?seg @ dropWhile (\<lambda>c. c \<noteq> newline) r)" by simp
      also have "\<dots> = take ?j ?seg" using j(2) by (simp del: takeWhile_dropWhile_id)
      also have "\<dots> = a" by (subst seg) simp
      finally show ?thesis .
    qed
    ultimately show ?thesis using groups Some by simp
  qed
qed

lemma field_type_rx_unfold:
  "field_type_rx = Then (Grp ''type'' (Plus (Neg (Ch (CHR ''(''))))) (Then (Opt args_part) (Lit []))"
  by (simp add: field_type_rx_def seq_def args_part_def)

lemma field_components:
  "re_match field_type_rx s =
     (if type_name s = [] then None
      else Some ((case type_args s of None \<Rightarrow> [] | Some a \<Rightarrow> [(''args'', a)])
                 @ [(''type'', type_name s)]))"
proof -
  let ?Q = "\<lambda>c. c \<noteq> CHR ''(''"
  let ?n = "length (takeWhile ?Q s)"
  let ?F = "rx_match (Then (Opt args_part) (Lit []))"
  let ?g0 = "[(''type'', type_name s)]"
  have cls: "in_cls (Neg (Ch (CHR ''(''))) = ?Q" by (rule ext) simp
  have F: "?F st = rx_match args_part st @ [st]" for st
    unfolding rx_match_Then_Nil by simp
  have whole: "rx_match field_type_rx (True, s, []) =
      concat (map ?F (map (\<lambda>(b', s', g'). (b', s', (''type'', take (length s - length s') s) # g'))
        (map (\<lambda>k. consume k (True, s, [])) (rev [1 ..< Suc ?n]))))"
    by (simp add: field_type_rx_unfold cls)
  show ?thesis
  proof (cases "type_name s = []")
    case True
    then have "?n = 0" by (simp add: type_name_def)
    with whole True show ?thesis by (simp add: re_match_def)
  next
    case False
    then have n: "0 < ?n" by (simp add: type_name_def)
    have nle: "?n \<le> length s" by (rule length_takeWhile_le)
    obtain m where m: "?n = Suc m" using n by (cases ?n) auto
    have taken: "take ?n s = type_name s"
    proof -
      have "take ?n s = take ?n (takeWhile ?Q s @ dropWhile ?Q s)" by simp
      also have "\<dots> = takeWhile ?Q s" by (simp del: takeWhile_dropWhile_id)
      finally show ?thesis by (simp add: type_name_def)
    qed
    have dropped: "drop ?n s = dropWhile ?Q s"
    proof -
      have "drop ?n s = drop ?n (takeWhile ?Q s @ dropWhile ?Q s)" by simp
      also have "\<dots> = dropWhile ?Q s" by (simp del: takeWhile_dropWhile_id)
      finally show ?thesis .
    qed
    have consumed: "length s - length (dropWhile ?Q s) = ?n"
    proof -
      have "length (drop ?n s) = length s - ?n" by (rule length_drop)
      with nle show ?thesis by (simp add: dropped)
    qed
    define st0 where "st0 = (s ! m = newline, dropWhile ?Q s, ?g0)"
    have "rev [1 ..< Suc ?n] = ?n # rev [1 ..< ?n]" using n by (simp add: Suc_le_eq)
    moreover have "(\<lambda>(b', s', g'). (b', s', (''type'', take (length s - length s') s) # g'))
        (consume ?n (True, s, [])) = st0"
    proof -
      have "consume ?n (True, s, []) = (s ! m = newline, drop ?n s, [])"
        by (simp add: m)
      then show ?thesis
        by (simp only: dropped prod.case consumed taken st0_def)
    qed
    ultimately obtain others where
      "rx_match field_type_rx (True, s, []) = (rx_match args_part st0 @ [st0]) @ others"
      using whole F by simp
    then have head: "re_match field_type_rx s =
        (case map (\<lambda>(b', s', h). h) (rx_match args_part st0) of
           [] \<Rightarrow> Some ?g0 | h # _ \<Rightarrow> Some h)"
      by (cases "rx_match args_part st0") (auto simp: re_match_def st0_def)
    show ?thesis
    proof (cases "dropWhile ?Q s")
      case Nil
      have ta: "type_args s = None"
        unfolding type_args_def by (simp only: Nil list.case)
      have "rx_match args_part st0 = []"
        unfolding st0_def Nil by (rule args_part_no_paren) simp
      with head ta False show ?thesis by simp
    next
      case (Cons c r)
      have "\<not> ?Q (hd (dropWhile ?Q s))"
        by (rule hd_dropWhile) (simp add: Cons)
      with Cons have c: "c = CHR ''(''" by simp
      have "map (\<lambda>(b', s', h). h) (rx_match args_part st0) =
         (case last_close (takeWhile (\<lambda>c. c \<noteq> newline) r) of
            None \<Rightarrow> []
          | Some a \<Rightarrow>
              ((''args'', a) # ?g0) #
                map (\<lambda>k. (''args'', take k r) # ?g0)
                  (filter (\<lambda>k. take (Suc 0) (drop k r) = '')'') (rev [1 ..< length a])))"
        unfolding st0_def Cons c by (rule args_part_groups)
      moreover have "type_args s = last_close (takeWhile (\<lambda>c. c \<noteq> newline) r)"
        unfolding type_args_def by (simp only: Cons list.case)
      ultimately show ?thesis using head False
        by (simp split: option.splits)
    qed
  qed
qed

section \<open>The type mapper on the two parts of a type text\<close>

lemma get_field_type_parts:
  "get_field_type s =
     (if type_name s = [] then Inl AttributeError
      else if type_name s = ''VARCHAR'' \<or> type_name s = ''VARCHAR2''
      then (case py_int (type_args s) of Inl e \<Rightarrow> Inl e | Inr n \<Rightarrow> Inr (String_t n))
      else if type_name s = ''NUMBER''
      then (case type_args s of
              None \<Rightarrow> Inr BigInteger_t
            | Some a \<Rightarrow>
                (case map_int (re_split args_sep_rx a) of
                   Inl e \<Rightarrow> Inl e
                 | Inr number_args \<Rightarrow>
                     (case number_args of
                        [n] \<Rightarrow> if n < 10 then Inr Integer_t else Inr BigInteger_t
                      | [p, q] \<Rightarrow> Inr (Numeric_t p q)
                      | _ \<Rightarrow> Inl NotImplementedError)))
      else if type_name s = ''DATE'' then Inr Date_t
      else Inl NotImplementedError)"
proof (cases "type_args s")
  case None
  then show ?thesis
    by (simp add: get_field_type_def field_components group_def)
next
  case (Some a)
  then show ?thesis
    by (simp add: get_field_type_def field_components group_def)
qed

lemma int_of_str_error: "int_of_str a = Inl e \<Longrightarrow> e = ValueError"
  by (auto simp: int_of_str_def split: list.splits if_splits)

lemma map_int_error: "map_int xs = Inl e \<Longrightarrow> e = ValueError"
  by (induction xs) (auto split: sum.splits dest: int_of_str_error)

lemma map_int_length: "map_int xs = Inr ns \<Longrightarrow> length ns = length xs"
  by (induction xs arbitrary: ns) (auto split: sum.splits)

lemma pieces_nonempty: "pieces s p ms \<noteq> []"
  by (induction s p ms rule: pieces.induct) simp_all

lemma re_split_nonempty: "re_split r s \<noteq> []"
  by (simp add: re_split_def pieces_nonempty)

lemma number_args_cases:
  assumes "map_int (re_split args_sep_rx a) = Inr ns"
  shows "(\<exists>n. ns = [n]) \<or> (\<exists>p q. ns = [p, q]) \<or> 2 < length ns"
proof -
  from map_int_length [OF assms] re_split_nonempty have "ns \<noteq> []" by auto
  then show ?thesis
    by (cases ns rule: list.exhaust; cases "tl ns"; cases "tl (tl ns)") auto
qed

lemma number_result:
  assumes "map_int (re_split args_sep_rx a) = Inr ns"
  shows "(case ns of
            [n] \<Rightarrow> if n < 10 then Inr Integer_t else Inr BigInteger_t
          | [p, q] \<Rightarrow> Inr (Numeric_t p q)
          | _ \<Rightarrow> Inl NotImplementedError) = Inl NotImplementedError \<longleftrightarrow> 2 < length ns"
  using number_args_cases [OF assms]
  by (auto split: list.splits)

section \<open>Errors of the type mapping\<close>

lemma get_field_type_error_kinds:
  "(get_field_type s = Inl NotImplementedError \<longleftrightarrow>
      type_name s \<noteq> [] \<and>
      (type_name s \<notin> {''VARCHAR'', ''VARCHAR2'', ''NUMBER'', ''DATE''} \<or>
       type_name s = ''NUMBER'' \<and>
       (\<exists>a ns. type_args s = Some a \<and> map_int (re_split args_sep_rx a) = Inr ns \<and>
                2 < length ns))) \<and>
   (get_field_type s = Inl TypeError \<longleftrightarrow>
      type_name s \<in> {''VARCHAR'', ''VARCHAR2''} \<and> type_args s = None) \<and>
   (get_field_type s = Inl ValueError \<longleftrightarrow>
      type_name s \<in> {''VARCHAR'', ''VARCHAR2''} \<and>
      (\<exists>a. type_args s = Some a \<and> int_of_str a = Inl ValueError) \<or>
      type_name s = ''NUMBER'' \<and>
      (\<exists>a. type_args s = Some a \<and> map_int (re_split args_sep_rx a) = Inl ValueError)) \<and>
   (get_field_type s = Inl AttributeError \<longleftrightarrow> type_name s = []) \<and>
   get_field_type s \<noteq> Inl IndexError \<and> get_field_type s \<noteq> Inl PatternError"
proof -
  consider (empty) "type_name s = []"
    | (varchar) "type_name s = ''VARCHAR'' \<or> type_name s = ''VARCHAR2''"
    | (number) "type_name s = ''NUMBER''"
    | (date) "type_name s = ''DATE''"
    | (other) "type_name s \<noteq> []" "type_name s \<notin> {''VARCHAR'', ''VARCHAR2'', ''NUMBER'', ''DATE''}"
    by auto
  then show ?thesis
  proof cases
    case empty
    then show ?thesis by (simp add: get_field_type_parts)
  next
    case varchar
    show ?thesis
    proof (cases "type_args s")
      case None
      with varchar show ?thesis
        by (auto simp: get_field_type_parts py_int_def)
    next
      case (Some a)
      show ?thesis
      proof (cases "int_of_str a")
        case (Inl e)
        then have "e = ValueError" by (rule int_of_str_error)
        with Inl Some varchar show ?thesis
          by (auto simp: get_field_type_parts py_int_def)
      next
        case (Inr n)
        with Some varchar show ?thesis
          by (auto simp: get_field_type_parts py_int_def)
      qed
    qed
  next
    case number
    show ?thesis
    proof (cases "type_args s")
      case None
      with number show ?thesis
        by (simp add: get_field_type_parts)
    next
      case (Some a)
      show ?thesis
      proof (cases "map_int (re_split args_sep_rx a)")
        case (Inl e)
        then have "e = ValueError" by (rule map_int_error)
        with Inl Some number show ?thesis
          by (simp add: get_field_type_parts)
      next
        case (Inr ns)
        from number_args_cases [OF Inr] consider
          (one) n where "ns = [n]" | (two) p q where "ns = [p, q]" | (more) "2 < length ns"
          by blast
        then show ?thesis
        proof cases
          case one
          with Inr Some number show ?thesis by (simp add: get_field_type_parts)
        next
          case two
          with Inr Some number show ?thesis by (simp add: get_field_type_parts)
        next
          case more
          then have "(case ns of
            [n] \<Rightarrow> if n < 10 then Inr Integer_t else Inr BigInteger_t
          | [p, q] \<Rightarrow> Inr (Numeric_t p q)
          | _ \<Rightarrow> Inl NotImplementedError) = Inl NotImplementedError"
            using number_result [OF Inr] by simp
          with more Inr Some number show ?thesis by (simp add: get_field_type_parts)
        qed
      qed
    qed
  next
    case date
    then show ?thesis by (simp add: get_field_type_parts)
  next
    case other
    then show ?thesis by (simp add: get_field_type_parts)
  qed
qed

lemma get_field_type_returns:
  "(\<exists>t. get_field_type s = Inr t) \<longleftrightarrow>
     type_name s \<in> {''VARCHAR'', ''VARCHAR2''} \<and>
     (\<exists>a n. type_args s = Some a \<and> int_of_str a = Inr n) \<or>
     type_name s = ''NUMBER'' \<and>
     (type_args s = None \<or>
      (\<exists>a ns. type_args s = Some a \<and> map_int (re_split args_sep_rx a) = Inr ns \<and>
               length ns \<le> 2)) \<or>
     type_name s = ''DATE''"
proof -
  consider (empty) "type_name s = []"
    | (varchar) "type_name s = ''VARCHAR'' \<or> type_name s = ''VARCHAR2''"
    | (number) "type_name s = ''NUMBER''"
    | (date) "type_name s = ''DATE''"
    | (other) "type_name s \<noteq> []" "type_name s \<notin> {''VARCHAR'', ''VARCHAR2'', ''NUMBER'', ''DATE''}"
    by auto
  then show ?thesis
  proof cases
    case empty
    then show ?thesis by (simp add: get_field_type_parts)
  next
    case varchar
    show ?thesis
    proof (cases "type_args s")
      case None
      with varchar show ?thesis
        by (auto simp: get_field_type_parts py_int_def)
    next
      case (Some a)
      show ?thesis
      proof (cases "int_of_str a")
        case (Inl e)
        with Some varchar show ?thesis
          by (auto simp: get_field_type_parts py_int_def)
      next
        case (Inr n)
        with Some varchar show ?thesis
          by (auto simp: get_field_type_parts py_int_def)
      qed
    qed
  next
    case number
    show ?thesis
    proof (cases "type_args s")
      case None
      with number show ?thesis
        by (simp add: get_field_type_parts)
    next
      case (Some a)
      show ?thesis
      proof (cases "map_int (re_split args_sep_rx a)")
        case (Inl e)
        with Some number show ?thesis
          by (simp add: get_field_type_parts)
      next
        case (Inr ns)
        from number_args_cases [OF Inr] consider
          (one) n where "ns = [n]" | (two) p q where "ns = [p, q]" | (more) "2 < length ns"
          by blast
        then show ?thesis
        proof cases
          case one
          with Inr Some number show ?thesis by (simp add: get_field_type_parts)
        next
          case two
          with Inr Some number show ?thesis by (simp add: get_field_type_parts)
        next
          case more
          then have "(case ns of
            [n] \<Rightarrow> if n < 10 then Inr Integer_t else Inr BigInteger_t
          | [p, q] \<Rightarrow> Inr (Numeric_t p q)
          | _ \<Rightarrow> Inl NotImplementedError) = Inl NotImplementedError"
            using number_result [OF Inr] by simp
          with more Inr Some number show ?thesis by (simp add: get_field_type_parts)
        qed
      qed
    qed
  next
    case date
    then show ?thesis by (simp add: get_field_type_parts)
  next
    case other
    then show ?thesis by (simp add: get_field_type_parts)
  qed
qed

lemma get_field_type_date_arguments:
  "get_field_type (''DATE('' @ rest) = Inr Date_t"
proof -
  have "type_name (''DATE('' @ rest) = ''DATE''"
    by (simp add: type_name_def)
  then show ?thesis
    by (simp add: get_field_type_parts)
qed

text \<open>
  C5, as the program has it. \<open>get_field_type\<close> raises \<open>NotImplementedError\<close> exactly
  when the type name, the text before the first opening parenthesis, is not empty and
  either is none of \<open>VARCHAR\<close>, \<open>VARCHAR2\<close>, \<open>NUMBER\<close> and \<open>DATE\<close>, or is
  \<open>NUMBER\<close> with an argument list of more than two integers. It raises \<open>TypeError\<close>
  exactly for \<open>VARCHAR\<close> or \<open>VARCHAR2\<close> without arguments, \<open>ValueError\<close> exactly for
  \<open>VARCHAR\<close>, \<open>VARCHAR2\<close> or \<open>NUMBER\<close> with an argument that \<open>int()\<close> rejects,
  \<open>AttributeError\<close> exactly for an empty type name, and no other error. It returns a
  type exactly when the type name is \<open>VARCHAR\<close> or \<open>VARCHAR2\<close> with an argument text
  that \<open>int()\<close> accepts, \<open>NUMBER\<close> with no arguments or with one or two integers, or
  \<open>DATE\<close>, whatever follows the name \<open>DATE\<close>: \<open>DATE\<close> followed by an opening
  parenthesis and any text gives the date type. The arguments are the text between the
  first opening parenthesis and the last closing parenthesis of the first line, so
  that text after the closing parenthesis is ignored and an unclosed parenthesis
  counts as no arguments.
\<close>

theorem get_field_type_errors:
  "(get_field_type s = Inl NotImplementedError \<longleftrightarrow>
      type_name s \<noteq> [] \<and>
      (type_name s \<notin> {''VARCHAR'', ''VARCHAR2'', ''NUMBER'', ''DATE''} \<or>
       type_name s = ''NUMBER'' \<and>
       (\<exists>a ns. type_args s = Some a \<and> map_int (re_split args_sep_rx a) = Inr ns \<and>
                2 < length ns))) \<and>
   (get_field_type s = Inl TypeError \<longleftrightarrow>
      type_name s \<in> {''VARCHAR'', ''VARCHAR2''} \<and> type_args s = None) \<and>
   (get_field_type s = Inl ValueError \<longleftrightarrow>
      type_name s \<in> {''VARCHAR'', ''VARCHAR2''} \<and>
      (\<exists>a. type_args s = Some a \<and> int_of_str a = Inl ValueError) \<or>
      type_name s = ''NUMBER'' \<and>
      (\<exists>a. type_args s = Some a \<and> map_int (re_split args_sep_rx a) = Inl ValueError)) \<and>
   (get_field_type s = Inl AttributeError \<longleftrightarrow> type_name s = []) \<and>
   get_field_type s \<noteq> Inl IndexError \<and> get_field_type s \<noteq> Inl PatternError \<and>
   ((\<exists>t. get_field_type s = Inr t) \<longleftrightarrow>
      type_name s \<in> {''VARCHAR'', ''VARCHAR2''} \<and>
      (\<exists>a n. type_args s = Some a \<and> int_of_str a = Inr n) \<or>
      type_name s = ''NUMBER'' \<and>
      (type_args s = None \<or>
       (\<exists>a ns. type_args s = Some a \<and> map_int (re_split args_sep_rx a) = Inr ns \<and>
                length ns \<le> 2)) \<or>
      type_name s = ''DATE'') \<and>
   get_field_type (''DATE('' @ rest) = Inr Date_t"
proof -
  note kinds = get_field_type_error_kinds [of s]
  note returns = get_field_type_returns [of s]
  note date = get_field_type_date_arguments [of rest]
  from kinds returns date show ?thesis
    apply -
    apply (elim conjE)
    apply (intro conjI; assumption)
    done
qed

theorem get_field_type_errors_witness:
  "get_field_type ''CLOB'' = Inl NotImplementedError \<and>
   get_field_type ''NUMBER(1,2,3)'' = Inl NotImplementedError \<and>
   get_field_type ''VARCHAR2'' = Inl TypeError \<and>
   get_field_type ''NUMBER(x)'' = Inl ValueError \<and>
   (\<exists>t. get_field_type ''VARCHAR(5)xyz'' = Inr t) \<and>
   (\<exists>t. get_field_type ''NUMBER(5'' = Inr t) \<and>
   get_field_type ''DATE(1,2,3)'' = Inr Date_t"
proof -
  have n: "type_name ''CLOB'' = ''CLOB''" "type_name ''NUMBER(1,2,3)'' = ''NUMBER''"
    "type_name ''VARCHAR2'' = ''VARCHAR2''" "type_name ''NUMBER(x)'' = ''NUMBER''"
    "type_name ''VARCHAR(5)xyz'' = ''VARCHAR''" "type_name ''NUMBER(5'' = ''NUMBER''"
    by code_simp+
  have a: "type_args ''NUMBER(1,2,3)'' = Some ''1,2,3''" "type_args ''VARCHAR2'' = None"
    "type_args ''NUMBER(x)'' = Some ''x''" "type_args ''VARCHAR(5)xyz'' = Some ''5''"
    "type_args ''NUMBER(5'' = None"
    by code_simp+
  have m: "map_int (re_split args_sep_rx ''1,2,3'') = Inr [1, 2, 3]"
    "map_int (re_split args_sep_rx ''x'') = Inl ValueError"
    "int_of_str ''5'' = Inr 5"
    by code_simp+
  show ?thesis
    using get_field_type_errors [where s = "''CLOB''" and rest = "''1,2,3)''"]
      get_field_type_errors [where s = "''NUMBER(1,2,3)''"]
      get_field_type_errors [where s = "''VARCHAR2''"]
      get_field_type_errors [where s = "''NUMBER(x)''"]
      get_field_type_errors [where s = "''VARCHAR(5)xyz''"]
      get_field_type_errors [where s = "''NUMBER(5''"]
    by (simp add: n a m)
qed

text \<open>
  C5, as the claim states it, asks for \<open>UnsupportedTypeError\<close>, which is
  \<open>NotImplementedError\<close> in the program, for every input outside the rules of the
  mapping. For \<open>VARCHAR\<close> without an argument the program passes \<open>None\<close> to
  \<open>int()\<close>, which raises \<open>TypeError\<close>; for \<open>DATE\<close> with an argument, which no rule
  covers, the program raises nothing and returns the date type.
\<close>

theorem get_field_type_varchar_counterexample:
  "get_field_type ''VARCHAR'' = Inl TypeError \<and>
   get_field_type ''VARCHAR'' \<noteq> Inl NotImplementedError \<and>
   get_field_type ''DATE(3)'' = Inr Date_t \<and>
   get_field_type ''DATE(3)'' \<noteq> Inl NotImplementedError"
  by code_simp

section \<open>Type texts with decimal arguments\<close>

lemma digit_plain:
  "is_digit c \<Longrightarrow> c \<noteq> CHR '','' \<and> c \<noteq> newline \<and> c \<noteq> CHR ''('' \<and> \<not> is_space c"
  by (auto simp: is_digit_def is_space_def code_def newline_def)

lemma type_name_paren:
  assumes "CHR ''('' \<notin> set nm"
  shows "type_name (nm @ CHR ''('' # rest) = nm"
proof -
  have "takeWhile (\<lambda>c. c \<noteq> CHR ''('') (nm @ CHR ''('' # rest) =
        nm @ takeWhile (\<lambda>c. c \<noteq> CHR ''('') (CHR ''('' # rest)"
    using assms by (intro takeWhile_append2) auto
  then show ?thesis by (simp add: type_name_def)
qed

lemma type_args_paren:
  assumes "CHR ''('' \<notin> set nm" "a \<noteq> []" "newline \<notin> set a"
  shows "type_args (nm @ CHR ''('' # a @ '')'') = Some a"
proof -
  have "dropWhile (\<lambda>c. c \<noteq> CHR ''('') (nm @ CHR ''('' # a @ '')'') =
        dropWhile (\<lambda>c. c \<noteq> CHR ''('') (CHR ''('' # a @ '')'')"
    using assms(1) by (intro dropWhile_append2) auto
  then have d: "dropWhile (\<lambda>c. c \<noteq> CHR ''('') (nm @ CHR ''('' # a @ '')'') =
        CHR ''('' # a @ '')''"
    by simp
  have "\<forall>c \<in> set (a @ '')''). c \<noteq> newline"
    using assms(3) by (auto simp: newline_def)
  then have line: "takeWhile (\<lambda>c. c \<noteq> newline) (a @ '')'') = a @ '')''"
    by (simp only: takeWhile_eq_all_conv)
  have "last_close (a @ '')'') = Some a"
    using assms(2) by (simp add: last_close_def Let_def)
  then show ?thesis
    unfolding type_args_def by (simp only: d list.case line)
qed

lemma args_sep_no_match:
  "c \<noteq> CHR '','' \<Longrightarrow> rx_match args_sep_rx (b, c # cs, []) = []"
  by (simp add: args_sep_rx_def seq_def)

lemma finditer_step:
  assumes "c \<noteq> CHR '',''"
  shows "finditer_from args_sep_rx 0 off b (c # cs) =
         finditer_from args_sep_rx 0 (Suc off) (c = newline) cs"
  by (simp only: finditer_from.simps args_sep_no_match [OF assms] list.case)

lemma finditer_no_sep:
  "CHR '','' \<notin> set xs \<Longrightarrow> finditer_from args_sep_rx 0 off b xs = []"
proof (induction xs arbitrary: off b)
  case Nil
  have "rx_match args_sep_rx (b, [], []) = []"
    by (simp add: args_sep_rx_def seq_def)
  then show ?case by simp
next
  case (Cons c cs)
  then have c: "c \<noteq> CHR '',''" and cs: "CHR '','' \<notin> set cs" by auto
  show ?case using Cons.IH [OF cs] by (simp only: finditer_step [OF c])
qed

lemma finditer_skip:
  "CHR '','' \<notin> set xs \<Longrightarrow>
     \<exists>b'. finditer_from args_sep_rx 0 off b (xs @ CHR '','' # ys) =
           finditer_from args_sep_rx 0 (off + length xs) b' (CHR '','' # ys)"
proof (induction xs arbitrary: off b)
  case Nil
  have "finditer_from args_sep_rx 0 off b ([] @ CHR '','' # ys) =
        finditer_from args_sep_rx 0 (off + length ([] :: string)) b (CHR '','' # ys)"
    by (simp only: append_Nil list.size add_0_right)
  then show ?case ..
next
  case (Cons c cs)
  then have c: "c \<noteq> CHR '',''" and cs: "CHR '','' \<notin> set cs" by auto
  from Cons.IH [OF cs, of "Suc off" "c = newline"] obtain b' where
    "finditer_from args_sep_rx 0 (Suc off) (c = newline) (cs @ CHR '','' # ys) =
     finditer_from args_sep_rx 0 (Suc off + length cs) b' (CHR '','' # ys)" ..
  then have "finditer_from args_sep_rx 0 off b ((c # cs) @ CHR '','' # ys) =
     finditer_from args_sep_rx 0 (off + length (c # cs)) b' (CHR '','' # ys)"
    by (simp only: append_Cons finditer_step [OF c] list.size add_Suc_right add_Suc add_0_right
        One_nat_def)
  then show ?case ..
qed

lemma args_sep_match:
  assumes "ys = [] \<or> \<not> is_space (hd ys)"
  shows "rx_match args_sep_rx (b, CHR '','' # ys, []) = [(False, ys, [])]"
proof -
  have "takeWhile is_space ys = []"
    using assms by (cases ys) auto
  then have "rx_match (Star Ws) (False, ys, []) = [(False, ys, [])]"
    by (simp add: in_cls_simps)
  moreover have "rx_match (Lit '','') (b, CHR '','' # ys, []) = [(False, ys, [])]"
    by (simp add: newline_def)
  ultimately show ?thesis
    by (simp add: args_sep_rx_def seq_def rx_match_Lit_Nil)
qed

lemma re_split_one:
  assumes "CHR '','' \<notin> set a"
  shows "re_split args_sep_rx a = [a]"
  by (simp add: re_split_def finditer_def finditer_no_sep [OF assms])

lemma re_split_two:
  assumes "CHR '','' \<notin> set p" "CHR '','' \<notin> set q" "q = [] \<or> \<not> is_space (hd q)"
  shows "re_split args_sep_rx (p @ CHR '','' # q) = [p, q]"
proof -
  from finditer_skip [OF assms(1), of 0 True q] obtain b' where
    "finditer args_sep_rx (p @ CHR '','' # q) =
       finditer_from args_sep_rx 0 (length p) b' (CHR '','' # q)"
    by (auto simp: finditer_def)
  also have "\<dots> = [(length p, length p + (Suc (length q) - length q), [])]"
    by (simp only: finditer_from.simps args_sep_match [OF assms(3)] list.case prod.case
        diff_self_eq_0 finditer_no_sep [OF assms(2)])
  finally have "finditer args_sep_rx (p @ CHR '','' # q) = [(length p, Suc (length p), [])]"
    by simp
  then show ?thesis by (simp add: re_split_def)
qed

lemma digits_free:
  assumes "list_all is_digit ds"
  shows "CHR '','' \<notin> set ds" "newline \<notin> set ds" "ds = [] \<or> \<not> is_space (hd ds)"
proof -
  have d: "is_digit c" if "c \<in> set ds" for c
    using assms that by (simp add: list_all_iff)
  show "CHR '','' \<notin> set ds"
    using d digit_plain [of "CHR '',''"] by blast
  show "newline \<notin> set ds"
    using d digit_plain [of newline] by blast
  show "ds = [] \<or> \<not> is_space (hd ds)"
  proof (cases ds)
    case Nil
    then show ?thesis by simp
  next
    case (Cons c cs)
    then have "is_digit c" using d by simp
    with Cons digit_plain [of c] show ?thesis by simp
  qed
qed

lemma decimal_argument:
  assumes "CHR ''('' \<notin> set nm" "nm \<noteq> []" "ds \<noteq> []" "list_all is_digit ds"
  shows "type_name (nm @ CHR ''('' # ds @ '')'') = nm"
    and "type_args (nm @ CHR ''('' # ds @ '')'') = Some ds"
    and "int_of_str ds = Inr (digits_value ds)"
    and "map_int (re_split args_sep_rx ds) = Inr [digits_value ds]"
proof -
  show "type_name (nm @ CHR ''('' # ds @ '')'') = nm"
    using assms(1) by (rule type_name_paren)
  show "type_args (nm @ CHR ''('' # ds @ '')'') = Some ds"
    using assms(1,3) digits_free(2) [OF assms(4)] by (rule type_args_paren)
  show v: "int_of_str ds = Inr (digits_value ds)"
    using assms(3,4) by (rule int_of_str_digits)
  show "map_int (re_split args_sep_rx ds) = Inr [digits_value ds]"
    using v by (simp add: re_split_one [OF digits_free(1) [OF assms(4)]])
qed

lemma decimal_arguments:
  assumes "CHR ''('' \<notin> set nm" "ps \<noteq> []" "list_all is_digit ps" "qs \<noteq> []" "list_all is_digit qs"
  shows "type_name (nm @ CHR ''('' # (ps @ CHR '','' # qs) @ '')'') = nm"
    and "type_args (nm @ CHR ''('' # (ps @ CHR '','' # qs) @ '')'') = Some (ps @ CHR '','' # qs)"
    and "map_int (re_split args_sep_rx (ps @ CHR '','' # qs)) =
           Inr [digits_value ps, digits_value qs]"
proof -
  show "type_name (nm @ CHR ''('' # (ps @ CHR '','' # qs) @ '')'') = nm"
    using assms(1) by (rule type_name_paren)
  have "newline \<notin> set (ps @ CHR '','' # qs)"
    using digits_free(2) [OF assms(3)] digits_free(2) [OF assms(5)]
    by (simp add: newline_def)
  then show "type_args (nm @ CHR ''('' # (ps @ CHR '','' # qs) @ '')'') = Some (ps @ CHR '','' # qs)"
    using assms(1) by (intro type_args_paren) simp_all
  have "re_split args_sep_rx (ps @ CHR '','' # qs) = [ps, qs]"
    using digits_free(1) [OF assms(3)] digits_free(1) [OF assms(5)] digits_free(3) [OF assms(5)]
    by (rule re_split_two)
  then show "map_int (re_split args_sep_rx (ps @ CHR '','' # qs)) =
           Inr [digits_value ps, digits_value qs]"
    using int_of_str_digits [OF assms(2,3)] int_of_str_digits [OF assms(4,5)] by simp
qed

text \<open>
  C1. For digit texts \<open>ds\<close>, \<open>ps\<close> and \<open>qs\<close>, which denote the numbers
  \<open>digits_value ds\<close>, \<open>digits_value ps\<close> and \<open>digits_value qs\<close>:
  \<open>VARCHAR(ds)\<close> and \<open>VARCHAR2(ds)\<close> give a string type of that length; \<open>NUMBER\<close>
  without arguments gives a big integer; \<open>NUMBER(ds)\<close> gives an integer when the
  number is below 10 and a big integer otherwise; \<open>NUMBER(ps,qs)\<close> gives a numeric
  type of that precision and scale; \<open>DATE\<close> gives a date. The examples of the
  specification follow.
\<close>

theorem get_field_type_rules:
  assumes "ds \<noteq> []" "list_all is_digit ds"
    and "ps \<noteq> []" "list_all is_digit ps"
    and "qs \<noteq> []" "list_all is_digit qs"
  shows "get_field_type (''VARCHAR('' @ ds @ '')'') = Inr (String_t (digits_value ds)) \<and>
    get_field_type (''VARCHAR2('' @ ds @ '')'') = Inr (String_t (digits_value ds)) \<and>
    get_field_type ''NUMBER'' = Inr BigInteger_t \<and>
    get_field_type (''NUMBER('' @ ds @ '')'') =
      Inr (if digits_value ds < 10 then Integer_t else BigInteger_t) \<and>
    get_field_type (''NUMBER('' @ ps @ '','' @ qs @ '')'') =
      Inr (Numeric_t (digits_value ps) (digits_value qs)) \<and>
    get_field_type ''DATE'' = Inr Date_t \<and>
    get_field_type ''VARCHAR(12)'' = Inr (String_t 12) \<and>
    get_field_type ''VARCHAR2(4000)'' = Inr (String_t 4000) \<and>
    get_field_type ''NUMBER(9)'' = Inr Integer_t \<and>
    get_field_type ''NUMBER(10)'' = Inr BigInteger_t \<and>
    get_field_type ''NUMBER(10,2)'' = Inr (Numeric_t 10 2)"
proof -
  have varchar: "get_field_type (''VARCHAR('' @ ds @ '')'') = Inr (String_t (digits_value ds))"
  proof -
    have "''VARCHAR('' @ ds @ '')'' = ''VARCHAR'' @ CHR ''('' # ds @ '')''" by simp
    then show ?thesis
      using decimal_argument(1-3) [of "''VARCHAR''" ds] assms(1,2)
      by (simp add: get_field_type_parts py_int_def)
  qed
  have varchar2: "get_field_type (''VARCHAR2('' @ ds @ '')'') = Inr (String_t (digits_value ds))"
  proof -
    have "''VARCHAR2('' @ ds @ '')'' = ''VARCHAR2'' @ CHR ''('' # ds @ '')''" by simp
    then show ?thesis
      using decimal_argument(1-3) [of "''VARCHAR2''" ds] assms(1,2)
      by (simp add: get_field_type_parts py_int_def)
  qed
  have number1: "get_field_type (''NUMBER('' @ ds @ '')'') =
      Inr (if digits_value ds < 10 then Integer_t else BigInteger_t)"
  proof -
    have "''NUMBER('' @ ds @ '')'' = ''NUMBER'' @ CHR ''('' # ds @ '')''" by simp
    then show ?thesis
      using decimal_argument(1,2,4) [of "''NUMBER''" ds] assms(1,2)
      by (simp add: get_field_type_parts)
  qed
  have number2: "get_field_type (''NUMBER('' @ ps @ '','' @ qs @ '')'') =
      Inr (Numeric_t (digits_value ps) (digits_value qs))"
  proof -
    have "''NUMBER('' @ ps @ '','' @ qs @ '')'' =
          ''NUMBER'' @ CHR ''('' # (ps @ CHR '','' # qs) @ '')''" by simp
    then show ?thesis
      using decimal_arguments [of "''NUMBER''" ps qs] assms(3-6)
      by (simp add: get_field_type_parts)
  qed
  have number0: "get_field_type ''NUMBER'' = Inr BigInteger_t"
    by code_simp
  have date: "get_field_type ''DATE'' = Inr Date_t"
    by code_simp
  have e1: "get_field_type ''VARCHAR(12)'' = Inr (String_t 12)"
    by code_simp
  have e2: "get_field_type ''VARCHAR2(4000)'' = Inr (String_t 4000)"
    by code_simp
  have e3: "get_field_type ''NUMBER(9)'' = Inr Integer_t"
    by code_simp
  have e4: "get_field_type ''NUMBER(10)'' = Inr BigInteger_t"
    by code_simp
  have e5: "get_field_type ''NUMBER(10,2)'' = Inr (Numeric_t 10 2)"
    by code_simp
  from varchar varchar2 number0 number1 number2 date e1 e2 e3 e4 e5 show ?thesis
    by blast
qed

theorem get_field_type_rules_witness:
  "get_field_type ''VARCHAR(255)'' = Inr (String_t 255) \<and>
   get_field_type ''NUMBER(255)'' = Inr BigInteger_t \<and>
   get_field_type ''NUMBER(38,4)'' = Inr (Numeric_t 38 4)"
proof -
  have d: "''255'' \<noteq> []" "list_all is_digit ''255''" "''38'' \<noteq> []" "list_all is_digit ''38''"
    "''4'' \<noteq> []" "list_all is_digit ''4''"
    by code_simp+
  have v: "digits_value ''255'' = 255" "digits_value ''38'' = 38" "digits_value ''4'' = 4"
    by code_simp+
  from get_field_type_rules [OF d] show ?thesis
    by (simp add: v)
qed

section \<open>Where a field declaration can begin\<close>

lemma upper_plain:
  "in_cls upper_cls c \<Longrightarrow> \<not> is_space c \<and> c \<noteq> CHR ''(''"
  by (auto simp: upper_cls_def is_space_def code_def)

lemma run_unique:
  assumes "list_all P xs" "list_all P ys"
    and "r1 = [] \<or> \<not> P (hd r1)" "r2 = [] \<or> \<not> P (hd r2)"
    and "xs @ r1 = ys @ r2"
  shows "xs = ys \<and> r1 = r2"
proof -
  have run: "takeWhile P (zs @ r) = zs" if "list_all P zs" "r = [] \<or> \<not> P (hd r)" for zs r
  proof -
    have "takeWhile P (zs @ r) = zs @ takeWhile P r"
      using that(1) by (intro takeWhile_append2) (simp add: list_all_iff)
    moreover have "takeWhile P r = []"
      using that(2) by (cases r) auto
    ultimately show ?thesis by simp
  qed
  have "xs = takeWhile P (xs @ r1)" using run [OF assms(1,3)] by simp
  also have "\<dots> = takeWhile P (ys @ r2)" by (simp only: assms(5))
  also have "\<dots> = ys" by (rule run [OF assms(2,4)])
  finally have "xs = ys" .
  with assms(5) show ?thesis by simp
qed

lemma sem_seq_ConsE:
  assumes "sem (seq (r # rs)) u h"
  obtains u1 u2 h1 h2 where "u = u1 @ u2" "sem r u1 h1" "sem (seq rs) u2 h2"
  using assms by (auto simp: seq_def)

lemma sem_token:
  assumes "sem (Grp name (seq [One upper_cls, Plus (Neg Ws)])) u h"
  obtains c n where "u = c # n" "in_cls upper_cls c" "list_all (\<lambda>x. \<not> is_space x) n"
proof -
  have neg: "in_cls (Neg Ws) = (\<lambda>x. \<not> is_space x)" by (rule ext) simp
  from assms that show ?thesis
    by (auto simp: seq_def neg)
qed

lemma field_spec_sem_text:
  assumes "sem field_spec_rx u g"
  shows "(\<exists>c n w1 w2 c' t tail.
      u = c # n @ w1 @ w2 @ c' # t @ tail \<and>
      in_cls upper_cls c \<and> list_all (\<lambda>x. \<not> is_space x) n \<and>
      w1 \<noteq> [] \<and> list_all is_space w1 \<and> w2 \<noteq> [] \<and> list_all is_space w2 \<and>
      in_cls upper_cls c') \<or>
    (\<exists>c n w1 w2 c' t tail.
      u = c # n @ w1 @ ''NOT NULL'' @ w2 @ c' # t @ tail \<and>
      in_cls upper_cls c \<and> list_all (\<lambda>x. \<not> is_space x) n \<and>
      w1 \<noteq> [] \<and> list_all is_space w1 \<and> w2 \<noteq> [] \<and> list_all is_space w2 \<and>
      in_cls upper_cls c')"
proof -
  let ?token = "seq [One upper_cls, Plus (Neg Ws)]"
  let ?tail = "[Plus Ws, Lit ''('', Grp ''start_column'' (Plus Dg), Lit '':'',
                Grp ''end_column'' (Plus Dg), Lit '')'']"
  from assms have "sem (seq (Bol # Grp ''field_name'' ?token # Plus Ws # Opt (Lit ''NOT NULL'')
      # Plus Ws # Grp ''field_type'' ?token # ?tail)) u g"
    by (simp only: field_spec_rx_def)
  then obtain a0 b0 h0 k0 where u0: "u = a0 @ b0" and a0: "sem Bol a0 h0"
    and s1: "sem (seq (Grp ''field_name'' ?token # Plus Ws # Opt (Lit ''NOT NULL'')
      # Plus Ws # Grp ''field_type'' ?token # ?tail)) b0 k0"
    by (rule sem_seq_ConsE)
  from s1 obtain a1 b1 h1 k1 where u1: "b0 = a1 @ b1" and a1: "sem (Grp ''field_name'' ?token) a1 h1"
    and s2: "sem (seq (Plus Ws # Opt (Lit ''NOT NULL'')
      # Plus Ws # Grp ''field_type'' ?token # ?tail)) b1 k1"
    by (rule sem_seq_ConsE)
  from s2 obtain a2 b2 h2 k2 where u2: "b1 = a2 @ b2" and a2: "sem (Plus Ws) a2 h2"
    and s3: "sem (seq (Opt (Lit ''NOT NULL'') # Plus Ws # Grp ''field_type'' ?token # ?tail)) b2 k2"
    by (rule sem_seq_ConsE)
  from s3 obtain a3 b3 h3 k3 where u3: "b2 = a3 @ b3" and a3: "sem (Opt (Lit ''NOT NULL'')) a3 h3"
    and s4: "sem (seq (Plus Ws # Grp ''field_type'' ?token # ?tail)) b3 k3"
    by (rule sem_seq_ConsE)
  from s4 obtain a4 b4 h4 k4 where u4: "b3 = a4 @ b4" and a4: "sem (Plus Ws) a4 h4"
    and s5: "sem (seq (Grp ''field_type'' ?token # ?tail)) b4 k4"
    by (rule sem_seq_ConsE)
  from s5 obtain a5 b5 h5 where u5: "b4 = a5 @ b5" and a5: "sem (Grp ''field_type'' ?token) a5 h5"
    by (rule sem_seq_ConsE)
  from a1 obtain c n where n: "a1 = c # n" "in_cls upper_cls c" "list_all (\<lambda>x. \<not> is_space x) n"
    by (rule sem_token)
  from a5 obtain c' t where t: "a5 = c' # t" "in_cls upper_cls c'"
    by (rule sem_token)
  from a2 have w1: "a2 \<noteq> []" "list_all is_space a2" by (simp_all add: in_cls_simps)
  from a4 have w2: "a4 \<noteq> []" "list_all is_space a4" by (simp_all add: in_cls_simps)
  from a0 have "a0 = []" by simp
  with u0 u1 u2 u3 u4 u5 n(1) t(1) have u: "u = c # n @ a2 @ a3 @ a4 @ c' # t @ b5"
    by simp
  from a3 have "a3 = [] \<or> a3 = ''NOT NULL''" by auto
  then show ?thesis
  proof
    assume "a3 = []"
    with u have "u = c # n @ a2 @ a4 @ c' # t @ b5" by simp
    with n(2,3) t(2) w1 w2 show ?thesis
      by (intro disjI1 exI conjI) assumption+
  next
    assume "a3 = ''NOT NULL''"
    with u have "u = c # n @ a2 @ ''NOT NULL'' @ a4 @ c' # t @ b5" by simp
    with n(2,3) t(2) w1 w2 show ?thesis
      by (intro disjI2 exI conjI) assumption+
  qed
qed

lemma after_name:
  assumes m: "(b', s', g) \<in> set (rx_match field_spec_rx (b, nm @ sep @ rest, []))"
    and nm: "nm \<noteq> []" "list_all (\<lambda>x. \<not> is_space x) nm"
    and sep: "sep \<noteq> []" "list_all is_space sep"
    and rest: "rest = [] \<or> \<not> is_space (hd rest)"
  shows "startswith rest ''NOT NULL'' \<or>
         (2 \<le> length sep \<and> rest \<noteq> [] \<and> in_cls upper_cls (hd rest))"
proof -
  from rx_match_sound [OF m] obtain u h where
    eq: "nm @ sep @ rest = u @ s'" and u: "sem field_spec_rx u h" by blast
  have sp: "sep @ rest \<noteq> []" "is_space (hd (sep @ rest))"
    using sep by (cases sep; simp)+
  from field_spec_sem_text [OF u] show ?thesis
  proof (elim disjE exE conjE)
    fix c n w1 w2 c' t tail
    assume shape: "u = c # n @ w1 @ w2 @ c' # t @ tail"
      and c: "in_cls upper_cls c" and n: "list_all (\<lambda>x. \<not> is_space x) n"
      and w1: "w1 \<noteq> []" "list_all is_space w1"
      and w2: "w2 \<noteq> []" "list_all is_space w2"
      and c': "in_cls upper_cls c'"
    let ?r2 = "w1 @ w2 @ c' # t @ tail @ s'"
    have "nm @ (sep @ rest) = (c # n) @ ?r2" using eq shape by simp
    moreover have "list_all (\<lambda>x. \<not> is_space x) (c # n)" using c n upper_plain by simp
    moreover have "?r2 = [] \<or> \<not> \<not> is_space (hd ?r2)" using w1 by (cases w1) simp_all
    moreover have "sep @ rest = [] \<or> \<not> \<not> is_space (hd (sep @ rest))" using sp by simp
    ultimately have "sep @ rest = ?r2"
      using run_unique [of "\<lambda>x. \<not> is_space x" nm "c # n" "sep @ rest" ?r2] nm(2) by blast
    then have "sep @ rest = (w1 @ w2) @ (c' # t @ tail @ s')" by simp
    moreover have "list_all is_space (w1 @ w2)" using w1 w2 by simp
    moreover have "\<not> is_space (hd (c' # t @ tail @ s'))" using c' upper_plain by simp
    ultimately have "sep = w1 @ w2 \<and> rest = c' # t @ tail @ s'"
      using run_unique [of is_space sep "w1 @ w2" rest "c' # t @ tail @ s'"] sep(2) rest
      by blast
    moreover have "2 \<le> length (w1 @ w2)"
      using w1(1) w2(1) by (cases w1; cases w2) simp_all
    ultimately show ?thesis using c' by simp
  next
    fix c n w1 w2 c' t tail
    assume shape: "u = c # n @ w1 @ ''NOT NULL'' @ w2 @ c' # t @ tail"
      and c: "in_cls upper_cls c" and n: "list_all (\<lambda>x. \<not> is_space x) n"
      and w1: "w1 \<noteq> []" "list_all is_space w1"
    let ?after = "''NOT NULL'' @ w2 @ c' # t @ tail @ s'"
    let ?r2 = "w1 @ ?after"
    have "nm @ (sep @ rest) = (c # n) @ ?r2" using eq shape by simp
    moreover have "list_all (\<lambda>x. \<not> is_space x) (c # n)" using c n upper_plain by simp
    moreover have "?r2 = [] \<or> \<not> \<not> is_space (hd ?r2)" using w1 by (cases w1) simp_all
    moreover have "sep @ rest = [] \<or> \<not> \<not> is_space (hd (sep @ rest))" using sp by simp
    ultimately have "sep @ rest = ?r2"
      using run_unique [of "\<lambda>x. \<not> is_space x" nm "c # n" "sep @ rest" ?r2] nm(2) by blast
    moreover have "\<not> is_space (hd ?after)" by (simp add: is_space_def code_def)
    ultimately have "sep = w1 \<and> rest = ?after"
      using run_unique [of is_space sep w1 rest ?after] sep(2) w1(2) rest
      by blast
    then have "startswith rest ''NOT NULL''" by (simp add: startswith_def)
    then show ?thesis ..
  qed
qed

lemma no_field_one_space:
  assumes nm: "nm \<noteq> []" "list_all (\<lambda>x. \<not> is_space x) nm"
    and w: "is_space w"
    and ty: "ty \<noteq> []" "list_all (\<lambda>x. \<not> is_space x) ty"
    and ws: "ws \<noteq> []" "list_all is_space ws"
  shows "rx_match field_spec_rx (b, nm @ w # ty @ ws @ CHR ''('' # rest, []) = []"
proof (rule ccontr)
  let ?rest = "ty @ ws @ CHR ''('' # rest"
  assume "rx_match field_spec_rx (b, nm @ w # ty @ ws @ CHR ''('' # rest, []) \<noteq> []"
  then obtain b' s' g where
    "(b', s', g) \<in> set (rx_match field_spec_rx (b, nm @ [w] @ ?rest, []))"
    by (cases "rx_match field_spec_rx (b, nm @ w # ty @ ws @ CHR ''('' # rest, [])") auto
  moreover have "?rest = [] \<or> \<not> is_space (hd ?rest)"
    using ty by (cases ty) simp_all
  ultimately have "startswith ?rest ''NOT NULL'' \<or>
      (2 \<le> length [w] \<and> ?rest \<noteq> [] \<and> in_cls upper_cls (hd ?rest))"
    using nm w by (intro after_name) simp_all
  then have "startswith ?rest ''NOT NULL''" by simp
  then obtain y where "?rest = ''NOT NULL'' @ y"
    by (auto simp: startswith_iff)
  then have "ty @ (ws @ CHR ''('' # rest) = ''NOT'' @ ('' NULL'' @ y)" by simp
  moreover have "list_all (\<lambda>x. \<not> is_space x) ''NOT''"
    by (simp add: is_space_def code_def)
  moreover have "\<not> \<not> is_space (hd (ws @ CHR ''('' # rest))"
    using ws by (cases ws) simp_all
  moreover have "\<not> \<not> is_space (hd ('' NULL'' @ y))"
    by (simp add: is_space_def code_def)
  ultimately have "ws @ CHR ''('' # rest = '' NULL'' @ y"
    using run_unique [of "\<lambda>x. \<not> is_space x" ty "''NOT''" "ws @ CHR ''('' # rest" "'' NULL'' @ y"]
      ty(2) by blast
  then have "ws @ (CHR ''('' # rest) = '' '' @ (''NULL'' @ y)" by simp
  moreover have "list_all is_space '' ''" by (simp add: is_space_def code_def)
  moreover have "\<not> is_space (hd (CHR ''('' # rest))" "\<not> is_space (hd (''NULL'' @ y))"
    by (simp_all add: is_space_def code_def)
  ultimately have "CHR ''('' # rest = ''NULL'' @ y"
    using run_unique [of is_space ws "'' ''" "CHR ''('' # rest" "''NULL'' @ y"] ws(2) by blast
  then show False by simp
qed

lemma no_field_before_paren:
  assumes ty: "ty \<noteq> []" "list_all (\<lambda>x. \<not> is_space x) ty"
    and ws: "ws \<noteq> []" "list_all is_space ws"
  shows "rx_match field_spec_rx (b, ty @ ws @ CHR ''('' # rest, []) = []"
proof (rule ccontr)
  assume "rx_match field_spec_rx (b, ty @ ws @ CHR ''('' # rest, []) \<noteq> []"
  then obtain b' s' g where
    "(b', s', g) \<in> set (rx_match field_spec_rx (b, ty @ ws @ CHR ''('' # rest, []))"
    by (cases "rx_match field_spec_rx (b, ty @ ws @ CHR ''('' # rest, [])") auto
  moreover have "\<not> is_space (hd (CHR ''('' # rest))" by (simp add: is_space_def code_def)
  ultimately have "startswith (CHR ''('' # rest) ''NOT NULL'' \<or>
      (2 \<le> length ws \<and> CHR ''('' # rest \<noteq> [] \<and> in_cls upper_cls (hd (CHR ''('' # rest)))"
    using ty ws by (intro after_name) simp_all
  then show False
    by (simp add: startswith_def upper_cls_def code_def)
qed

lemma no_field_not_upper:
  "\<not> in_cls upper_cls c \<Longrightarrow> rx_match field_spec_rx (b, c # cs, []) = []"
  by (simp add: field_spec_rx_def seq_def)

lemma no_field_empty: "rx_match field_spec_rx (b, [], []) = []"
  by (simp add: field_spec_rx_def seq_def)

lemma no_field_inside_line: "rx_match field_spec_rx (False, s, []) = []"
  by (simp add: field_spec_rx_def seq_def)

lemma finditer_pass:
  assumes "rx_match field_spec_rx (b, c # cs, []) = []"
  shows "finditer_from field_spec_rx 0 off b (c # cs) =
         finditer_from field_spec_rx 0 (Suc off) (c = newline) cs"
  by (simp only: finditer_from.simps assms list.case)

lemma finditer_inside_line:
  "newline \<notin> set xs \<Longrightarrow>
     finditer_from field_spec_rx 0 off False (xs @ rest) =
     finditer_from field_spec_rx 0 (off + length xs) False rest"
proof (induction xs arbitrary: off)
  case Nil
  then show ?case by simp
next
  case (Cons c cs)
  then have c: "(c = newline) = False" and cs: "newline \<notin> set cs" by auto
  have "finditer_from field_spec_rx 0 off False (c # cs @ rest) =
        finditer_from field_spec_rx 0 (Suc off) False (cs @ rest)"
    using finditer_pass [OF no_field_inside_line, where c = c and cs = "cs @ rest" and off = off]
    by (simp only: c append_Cons)
  also have "\<dots> = finditer_from field_spec_rx 0 (Suc off + length cs) False rest"
    by (rule Cons.IH [OF cs])
  finally show ?case by simp
qed

lemma finditer_no_upper:
  "list_all (\<lambda>c. \<not> in_cls upper_cls c) xs \<Longrightarrow> finditer_from field_spec_rx 0 off b xs = []"
proof (induction xs arbitrary: off b)
  case Nil
  show ?case by (simp add: no_field_empty)
next
  case (Cons c cs)
  then have c: "\<not> in_cls upper_cls c" and cs: "list_all (\<lambda>c. \<not> in_cls upper_cls c) cs"
    by simp_all
  show ?case
    using Cons.IH [OF cs] by (simp only: finditer_pass [OF no_field_not_upper [OF c]])
qed

lemma space_newline: "is_space newline"
  by (simp add: is_space_def code_def newline_def)

lemma token_line:
  assumes "list_all (\<lambda>x. \<not> is_space x) xs"
  shows "newline \<notin> set xs"
  using assms space_newline by (auto simp: list_all_iff)

lemma digit_not_upper: "is_digit c \<Longrightarrow> \<not> in_cls upper_cls c"
  by (auto simp: is_digit_def upper_cls_def code_def)

text \<open>
  C9. Take a line that begins with a field name (a token without white space), followed
  by a run \<open>sep\<close> of white space and then by a text that is not the marker
  \<open>NOT NULL\<close>. The field pattern matches at the start of the line only if \<open>sep\<close> has
  at least two characters. A fragment of the form name, one white-space character, type,
  white space and \<open>(start:end)\<close> therefore yields a schema without columns.
\<close>

theorem one_space_is_no_field:
  "((b', s', g) \<in> set (rx_match field_spec_rx (b, nm @ sep @ rest, [])) \<and>
    nm \<noteq> [] \<and> list_all (\<lambda>x. \<not> is_space x) nm \<and>
    sep \<noteq> [] \<and> list_all is_space sep \<and>
    (rest = [] \<or> \<not> is_space (hd rest)) \<and> \<not> startswith rest ''NOT NULL''
    \<longrightarrow> 2 \<le> length sep) \<and>
   (name \<noteq> [] \<and> list_all (\<lambda>x. \<not> is_space x) name \<and> is_space w \<and>
    ty \<noteq> [] \<and> list_all (\<lambda>x. \<not> is_space x) ty \<and>
    ws \<noteq> [] \<and> list_all is_space ws \<and> list_all is_digit sc \<and> list_all is_digit ec
    \<longrightarrow> extract_schema (name @ [w] @ ty @ ws @ ''('' @ sc @ '':'' @ ec @ '')'') = Inr [])"
proof (intro conjI impI)
  assume "(b', s', g) \<in> set (rx_match field_spec_rx (b, nm @ sep @ rest, [])) \<and>
    nm \<noteq> [] \<and> list_all (\<lambda>x. \<not> is_space x) nm \<and>
    sep \<noteq> [] \<and> list_all is_space sep \<and>
    (rest = [] \<or> \<not> is_space (hd rest)) \<and> \<not> startswith rest ''NOT NULL''"
  then have m: "(b', s', g) \<in> set (rx_match field_spec_rx (b, nm @ sep @ rest, []))"
    and nm: "nm \<noteq> []" "list_all (\<lambda>x. \<not> is_space x) nm"
    and sep: "sep \<noteq> []" "list_all is_space sep"
    and rest: "rest = [] \<or> \<not> is_space (hd rest)"
    and marker: "\<not> startswith rest ''NOT NULL''"
    by blast+
  from after_name [OF m nm sep rest] marker show "2 \<le> length sep" by blast
next
  let ?r = field_spec_rx
  let ?tail = "ws @ CHR ''('' # sc @ CHR '':'' # ec @ '')''"
  assume "name \<noteq> [] \<and> list_all (\<lambda>x. \<not> is_space x) name \<and> is_space w \<and>
    ty \<noteq> [] \<and> list_all (\<lambda>x. \<not> is_space x) ty \<and>
    ws \<noteq> [] \<and> list_all is_space ws \<and> list_all is_digit sc \<and> list_all is_digit ec"
  then have name: "name \<noteq> []" "list_all (\<lambda>x. \<not> is_space x) name"
    and w: "is_space w"
    and ty: "ty \<noteq> []" "list_all (\<lambda>x. \<not> is_space x) ty"
    and ws: "ws \<noteq> []" "list_all is_space ws"
    and sc: "list_all is_digit sc" and ec: "list_all is_digit ec"
    by blast+
  obtain c0 n0 where n0: "name = c0 # n0" using name(1) by (cases name) auto
  obtain c1 t1 where t1: "ty = c1 # t1" using ty(1) by (cases ty) auto
  have plain: "\<not> in_cls upper_cls c" if "is_space c" for c
    using that upper_plain by blast
  have "list_all (\<lambda>c. \<not> in_cls upper_cls c) ?tail"
    using ws(2) sc ec plain digit_not_upper
    by (auto simp: list_all_iff upper_cls_def code_def)
  then have A: "finditer_from ?r 0 off b0 ?tail = []" for off b0
    by (rule finditer_no_upper)
  have B: "finditer_from ?r 0 off False (t1 @ ?tail) = []" for off
    using finditer_inside_line [of t1 off ?tail] token_line [of t1] ty(2) A
    by (simp add: t1)
  have C: "finditer_from ?r 0 off b0 (ty @ ?tail) = []" for off b0
  proof -
    have "rx_match ?r (b0, ty @ ws @ CHR ''('' # (sc @ CHR '':'' # ec @ '')''), []) = []"
      using ty ws by (rule no_field_before_paren)
    then have "rx_match ?r (b0, c1 # t1 @ ?tail, []) = []" by (simp add: t1)
    from finditer_pass [OF this] have
      "finditer_from ?r 0 off b0 (c1 # t1 @ ?tail) =
       finditer_from ?r 0 (Suc off) (c1 = newline) (t1 @ ?tail)" .
    moreover have "(c1 = newline) = False"
      using ty(2) space_newline by (auto simp: t1)
    ultimately show ?thesis using B by (simp add: t1)
  qed
  have D: "finditer_from ?r 0 off False (w # ty @ ?tail) = []" for off
    using finditer_pass [OF no_field_inside_line, where c = w and cs = "ty @ ?tail" and off = off] C
    by simp
  have E: "finditer_from ?r 0 off False (n0 @ w # ty @ ?tail) = []" for off
    using finditer_inside_line [of n0 off "w # ty @ ?tail"] token_line [of n0] name(2) D
    by (simp add: n0)
  have "rx_match ?r (True, name @ w # ty @ ws @ CHR ''('' # (sc @ CHR '':'' # ec @ '')''), []) = []"
    using name w ty ws by (rule no_field_one_space)
  then have "rx_match ?r (True, c0 # n0 @ w # ty @ ?tail, []) = []" by (simp add: n0)
  from finditer_pass [OF this] have
    "finditer_from ?r 0 0 True (c0 # n0 @ w # ty @ ?tail) =
     finditer_from ?r 0 (Suc 0) (c0 = newline) (n0 @ w # ty @ ?tail)" .
  moreover have "(c0 = newline) = False"
    using name(2) space_newline by (auto simp: n0)
  ultimately have "finditer ?r (name @ [w] @ ty @ ws @ ''('' @ sc @ '':'' @ ec @ '')'') = []"
    using E by (simp add: finditer_def n0)
  then show "extract_schema (name @ [w] @ ty @ ws @ ''('' @ sc @ '':'' @ ec @ '')'') = Inr []"
    by (simp add: extract_schema_def)
qed

theorem one_space_is_no_field_witness:
  "extract_schema ''AB CD (1:2)'' = Inr [] \<and>
   (False, [], [(''end_column'', ''2''), (''start_column'', ''1''),
                (''field_type'', ''CD''), (''field_name'', ''AB'')])
     \<in> set (rx_match field_spec_rx (True, ''AB  CD (1:2)'', [])) \<and>
   2 \<le> length ''  ''"
proof -
  let ?g = "[(''end_column'', ''2''), (''start_column'', ''1''),
             (''field_type'', ''CD''), (''field_name'', ''AB'')]"
  have m: "(False, [], ?g) \<in> set (rx_match field_spec_rx (True, ''AB'' @ ''  '' @ ''CD (1:2)'', []))"
    by code_simp
  have h1: "''AB'' \<noteq> [] \<and> list_all (\<lambda>x. \<not> is_space x) ''AB'' \<and>
    ''  '' \<noteq> [] \<and> list_all is_space ''  '' \<and>
    (''CD (1:2)'' = [] \<or> \<not> is_space (hd ''CD (1:2)'')) \<and> \<not> startswith ''CD (1:2)'' ''NOT NULL''"
    by code_simp
  have h2: "''AB'' \<noteq> [] \<and> list_all (\<lambda>x. \<not> is_space x) ''AB'' \<and> is_space (CHR '' '') \<and>
    ''CD'' \<noteq> [] \<and> list_all (\<lambda>x. \<not> is_space x) ''CD'' \<and>
    '' '' \<noteq> [] \<and> list_all is_space '' '' \<and> list_all is_digit ''1'' \<and> list_all is_digit ''2''"
    by code_simp
  from one_space_is_no_field [of False "[]" ?g True "''AB''" "''  ''" "''CD (1:2)''"
      "''AB''" "CHR '' ''" "''CD''" "'' ''" "''1''" "''2''"] m h1 h2
  have "2 \<le> length ''  ''"
    and "extract_schema (''AB'' @ [CHR '' ''] @ ''CD'' @ '' '' @ ''('' @ ''1'' @ '':'' @ ''2'' @ '')'') = Inr []"
    by blast+
  with m show ?thesis by simp
qed

section \<open>Repeated headers\<close>

lemma repeated_header_steps:
  "findall1 table_header_rx repeated_header_layout = [''AA'', ''AA'']"
  "literal_pattern ''AA''"
  "re_search (seq [Bol, Lit ''AA'', Lit '' - '']) repeated_header_layout = Some (0, 5, [])"
  "extract_schema (drop 0 repeated_header_layout) =
     Inr [\<lparr>column = ''F1'', start = 1, length_col = 2, field_type = ''T1''\<rparr>,
          \<lparr>column = ''G1'', start = 3, length_col = 2, field_type = ''T1''\<rparr>]"
  by code_simp+

text \<open>
  C4. In \<open>repeated_header_layout\<close> the header of table \<open>AA\<close> stands at offsets 0 and
  21, with the column \<open>F1\<close> after the first and \<open>G1\<close> after the second. The
  fragment of the last header holds \<open>G1\<close> alone, but the mapping gives \<open>AA\<close> both
  columns: \<open>get_table_start\<close> searches for the name and finds the first header for
  either entry, and both entries carry the last table's name and so run to the end of
  the document.
\<close>

theorem repeated_header_takes_first_offset:
  "extract_table_schemas dyn repeated_header_layout =
     Inr [''AA'' \<mapsto>
       [\<lparr>column = ''F1'', start = 1, length_col = 2, field_type = ''T1''\<rparr>,
        \<lparr>column = ''G1'', start = 3, length_col = 2, field_type = ''T1''\<rparr>]] \<and>
   map fst (finditer table_header_rx repeated_header_layout) = [0, 21] \<and>
   extract_schema (slice repeated_header_layout 21 None) =
     Inr [\<lparr>column = ''G1'', start = 3, length_col = 2, field_type = ''T1''\<rparr>]"
proof (intro conjI)
  show "extract_table_schemas dyn repeated_header_layout =
     Inr [''AA'' \<mapsto>
       [\<lparr>column = ''F1'', start = 1, length_col = 2, field_type = ''T1''\<rparr>,
        \<lparr>column = ''G1'', start = 3, length_col = 2, field_type = ''T1''\<rparr>]]"
    using repeated_header_steps
    by (simp add: extract_table_schemas_def get_table_start_def get_table_end_def slice_def)
  show "map fst (finditer table_header_rx repeated_header_layout) = [0, 21]"
    by code_simp
  show "extract_schema (slice repeated_header_layout 21 None) =
     Inr [\<lparr>column = ''G1'', start = 3, length_col = 2, field_type = ''T1''\<rparr>]"
    by code_simp
qed

section \<open>Ensuring a table twice\<close>

lemma person_columns:
  "map_err build_column person_schema = Inr [(''FIRST_NAME'', String_t 20), (''AGE'', Integer_t)]"
  by code_simp

lemma ensure_table_exists_trace:
  assumes "ensure_table_exists n s c = Inr (t, c')"
  shows "trace c' = trace c @ [Create_all [n], Info_created n]"
  using assms
  by (auto simp: ensure_table_exists_def MetaData_def create_all_def Let_def split: sum.splits)

text \<open>
  C2. The table \<open>PERSON\<close> is ensured twice on a database without tables. Both calls
  return the same table definition and the database holds it once, but the second call
  does not find the table: like the first it builds the columns, calls
  \<open>metadata.create_all()\<close> and logs \<open>Created table\<close>. The branch that logs
  \<open>already exists\<close> is never taken, since the \<open>MetaData\<close> object is new in every
  call.
\<close>

theorem ensure_table_exists_second_call:
  "\<exists>c1 c2.
     ensure_table_exists ''PERSON'' person_schema empty_database = Inr (person_table, c1) \<and>
     ensure_table_exists ''PERSON'' person_schema c1 = Inr (person_table, c2) \<and>
     catalog c1 = [''PERSON'' \<mapsto> person_table] \<and>
     catalog c2 = [''PERSON'' \<mapsto> person_table] \<and>
     trace c1 = [Create_all [''PERSON''], Info_created ''PERSON''] \<and>
     trace c2 = [Create_all [''PERSON''], Info_created ''PERSON'',
                 Create_all [''PERSON''], Info_created ''PERSON''] \<and>
     Debug_exists ''PERSON'' \<notin> set (trace c2)"
proof -
  let ?c1 = "\<lparr>catalog = [''PERSON'' \<mapsto> person_table],
             trace = [Create_all [''PERSON''], Info_created ''PERSON'']\<rparr>"
  let ?c2 = "\<lparr>catalog = [''PERSON'' \<mapsto> person_table],
             trace = [Create_all [''PERSON''], Info_created ''PERSON'',
                      Create_all [''PERSON''], Info_created ''PERSON'']\<rparr>"
  have first: "ensure_table_exists ''PERSON'' person_schema empty_database = Inr (person_table, ?c1)"
    by (simp add: ensure_table_exists_def MetaData_def create_all_def person_columns
        person_table_def empty_database_def Let_def)
  have second: "ensure_table_exists ''PERSON'' person_schema ?c1 = Inr (person_table, ?c2)"
    by (simp add: ensure_table_exists_def MetaData_def create_all_def person_columns
        person_table_def Let_def)
  from first second show ?thesis
    by (intro exI [of _ ?c1] exI [of _ ?c2]) simp
qed

section \<open>Matching data files to a table\<close>

text \<open>
  C3, as the program has it. A member name is selected for a table exactly when it is the
  lowercased table name followed by \<open>.txt\<close>, or begins with the lowercased table name
  followed by an underscore. Only the table name is lowercased; the member name is
  compared as it stands. For the table \<open>PERSON\<close> the members \<open>person.txt\<close> and
  \<open>person_2023.txt\<close> are selected and \<open>personnel.txt\<close> is not.
\<close>

theorem file_is_for_table_exact:
  "(file_is_for_table name file_name \<longleftrightarrow>
      file_name = lower name @ ''.txt'' \<or> (\<exists>r. file_name = lower name @ ''_'' @ r)) \<and>
   file_is_for_table ''PERSON'' ''person.txt'' \<and>
   file_is_for_table ''PERSON'' ''person_2023.txt'' \<and>
   \<not> file_is_for_table ''PERSON'' ''personnel.txt''"
proof -
  have general: "file_is_for_table name file_name \<longleftrightarrow>
      file_name = lower name @ ''.txt'' \<or> (\<exists>r. file_name = lower name @ ''_'' @ r)"
    by (simp add: file_is_for_table_def startswith_iff)
  have a: "file_is_for_table ''PERSON'' ''person.txt''"
    by code_simp
  have b: "file_is_for_table ''PERSON'' ''person_2023.txt''"
    by code_simp
  have c: "\<not> file_is_for_table ''PERSON'' ''personnel.txt''"
    by code_simp
  from general a b c show ?thesis
    by blast
qed

text \<open>
  C3, as the claim states it, asks for the lowercased member name to be compared. The
  member \<open>PERSON.txt\<close> of the table \<open>PERSON\<close> has the lowercased name \<open>person.txt\<close>,
  and the program does not select it.
\<close>

theorem file_is_for_table_member_case_counterexample:
  "\<not> (file_is_for_table ''PERSON'' ''PERSON.txt'' \<longleftrightarrow>
        lower ''PERSON.txt'' = lower ''PERSON'' @ ''.txt'' \<or>
        startswith ''PERSON.txt'' (lower ''PERSON'' @ ''_''))"
  by code_simp

section \<open>The sentinel\<close>

text \<open>
  C6. The normalized row has the fields of the raw row, in order: a field equal to the
  one-character text \<open>*\<close> becomes the empty text, and every other field, also one that
  holds an asterisk among other characters, is unchanged.
\<close>

theorem output_row_sentinel:
  "length (output_row raw_row) = length raw_row \<and>
   (\<forall>i < length raw_row.
      output_row raw_row ! i = (if raw_row ! i = ''*'' then [] else raw_row ! i))"
proof (intro conjI allI impI)
  show "length (output_row raw_row) = length raw_row"
    by (simp add: output_row_def)
next
  fix i assume "i < length raw_row"
  then have "output_row raw_row ! i = (if raw_row ! i \<noteq> ''*'' then raw_row ! i else [])"
    unfolding output_row_def by (rule nth_map)
  then show "output_row raw_row ! i = (if raw_row ! i = ''*'' then [] else raw_row ! i)"
    by simp
qed

theorem output_row_sentinel_witness:
  "output_row [''a*b'', ''*'', ''**''] ! 0 = ''a*b'' \<and>
   output_row [''a*b'', ''*'', ''**''] ! 1 = [] \<and>
   output_row [''a*b'', ''*'', ''**''] ! 2 = ''**''"
  using output_row_sentinel [of "[''a*b'', ''*'', ''**'']"]
  by (simp add: nth_Cons')

end
